theory Spec2Isabelle
  imports Main
begin

section \<open>Step Runner (molecule/handlers.py, Runner.run)\<close>

text \<open>
  A hook of an execution step either returns a status code or raises. The Python
  test \<^verbatim>\<open>if rc:\<close> on an integer is \<open>rc \<noteq> 0\<close>.
\<close>

datatype 'f outcome = Returns int | Raises 'f

text \<open>
  A step instance: the four lifecycle hooks and the teardown hook \<^verbatim>\<open>kill(success)\<close>.
\<close>

record 'f step =
  step_setup :: "'f outcome"
  step_pre_run :: "'f outcome"
  step_run :: "'f outcome"
  step_post_run :: "'f outcome"
  step_kill :: "bool \<Rightarrow> 'f outcome"

text \<open>
  A step class is what \<^verbatim>\<open>myclass(self.spec_path, self.metadata)\<close> does: the constructor
  raises (\<open>Inl\<close>) or returns the instance (\<open>Inr\<close>).
\<close>

type_synonym 'f step_class = "'f + 'f step"

text \<open>
  The calls the runner makes, in order. The number is \<^verbatim>\<open>count\<close>, the 1-based position
  of the step class in \<^verbatim>\<open>execution_order\<close>. \<open>Instantiate\<close> records the call of the
  constructor. The progress messages written through \<^verbatim>\<open>self._output\<close> are not recorded.
\<close>

datatype event =
  Instantiate nat | Setup nat | PreRun nat | Run nat | PostRun nat | Kill nat bool

text \<open>
  The body of the \<^verbatim>\<open>try:\<close> block (lines 53 to 72): the trace of the hooks called, and
  either the fault that left the block (\<open>Inl\<close>) or the value of \<^verbatim>\<open>rc\<close> at the
  \<^verbatim>\<open>break\<close> (\<open>Inr\<close>).
\<close>

definition try_hooks :: "nat \<Rightarrow> 'f step \<Rightarrow> event list \<times> ('f + int)" where
  "try_hooks n my =
     (case step_setup my of
        Raises f \<Rightarrow> ([Setup n], Inl f)
      | Returns rc \<Rightarrow>
          if rc \<noteq> 0 then ([Setup n], Inr rc)
          else (case step_pre_run my of
            Raises f \<Rightarrow> ([Setup n, PreRun n], Inl f)
          | Returns rc \<Rightarrow>
              if rc \<noteq> 0 then ([Setup n, PreRun n], Inr rc)
              else (case step_run my of
                Raises f \<Rightarrow> ([Setup n, PreRun n, Run n], Inl f)
              | Returns rc \<Rightarrow>
                  if rc \<noteq> 0 then ([Setup n, PreRun n, Run n], Inr rc)
                  else (case step_post_run my of
                    Raises f \<Rightarrow> ([Setup n, PreRun n, Run n, PostRun n], Inl f)
                  | Returns rc \<Rightarrow> ([Setup n, PreRun n, Run n, PostRun n], Inr rc)))))"

text \<open>
  One pass of the \<^verbatim>\<open>for\<close> body after the instantiation (lines 50 to 77): the
  \<^verbatim>\<open>while True\<close> loop runs its body once (every path breaks or raises). On a fault the
  handler calls \<^verbatim>\<open>my.kill(success = False)\<close> and re-raises; a fault of \<^verbatim>\<open>kill\<close> itself
  replaces the one being handled. Otherwise \<^verbatim>\<open>my.kill(success = rc == 0)\<close> is called
  outside the \<^verbatim>\<open>try\<close>, and a fault of it propagates. The value \<^verbatim>\<open>kill\<close> returns
  is dropped.
\<close>

definition run_step :: "nat \<Rightarrow> 'f step \<Rightarrow> event list \<times> ('f + int)" where
  "run_step n my =
     (case try_hooks n my of
        (tr, Inl f) \<Rightarrow>
          (case step_kill my False of
             Raises g \<Rightarrow> (tr @ [Kill n False], Inl g)
           | Returns _ \<Rightarrow> (tr @ [Kill n False], Inl f))
      | (tr, Inr rc) \<Rightarrow>
          (case step_kill my (rc = 0) of
             Raises g \<Rightarrow> (tr @ [Kill n (rc = 0)], Inl g)
           | Returns _ \<Rightarrow> (tr @ [Kill n (rc = 0)], Inr rc)))"

text \<open>
  The \<^verbatim>\<open>for myclass in self.execution_order\<close> loop, \<^verbatim>\<open>count\<close> being the counter before
  the pass. A non-zero \<^verbatim>\<open>rc\<close> returns at once; the end of the list returns 0.
\<close>

fun run_loop :: "nat \<Rightarrow> 'f step_class list \<Rightarrow> event list \<times> ('f + int)" where
  "run_loop count [] = ([], Inr 0)"
| "run_loop count (myclass # rest) =
     (case myclass of
        Inl f \<Rightarrow> ([Instantiate (count + 1)], Inl f)
      | Inr my \<Rightarrow>
          (case run_step (count + 1) my of
             (tr, Inl f) \<Rightarrow> (Instantiate (count + 1) # tr, Inl f)
           | (tr, Inr rc) \<Rightarrow>
               if rc \<noteq> 0 then (Instantiate (count + 1) # tr, Inr rc)
               else (case run_loop (count + 1) rest of
                 (tr', res) \<Rightarrow> (Instantiate (count + 1) # tr @ tr', res))))"

definition Runner_run :: "'f step_class list \<Rightarrow> event list \<times> ('f + int)" where
  "Runner_run execution_order = run_loop 0 execution_order"

subsection \<open>What the specification says of the runner\<close>

text \<open>
  An assignment of integer status codes to the hooks of a step, and the step that
  returns them: no hook raises.
\<close>

record codes =
  c_setup :: int
  c_pre_run :: int
  c_run :: int
  c_post_run :: int
  c_kill :: "bool \<Rightarrow> int"

definition step_of :: "codes \<Rightarrow> 'f step" where
  "step_of c = \<lparr>step_setup = Returns (c_setup c), step_pre_run = Returns (c_pre_run c),
     step_run = Returns (c_run c), step_post_run = Returns (c_post_run c),
     step_kill = (\<lambda>success. Returns (c_kill c success))\<rparr>"

text \<open>The first non-zero status code of a sequence, or zero when there is none.\<close>

definition first_nonzero :: "int list \<Rightarrow> int" where
  "first_nonzero rcs = (case find (\<lambda>rc. rc \<noteq> 0) rcs of None \<Rightarrow> 0 | Some rc \<Rightarrow> rc)"

text \<open>
  The items of a sequence taken in order up to and including the first one whose status
  code is non-zero: that code short-circuits the rest.
\<close>

fun upto_first_nonzero :: "('a \<times> int) list \<Rightarrow> 'a list" where
  "upto_first_nonzero [] = []"
| "upto_first_nonzero ((x, rc) # rest) = x # (if rc \<noteq> 0 then [] else upto_first_nonzero rest)"

definition step_status :: "codes \<Rightarrow> int" where
  "step_status c = first_nonzero [c_setup c, c_pre_run c, c_run c, c_post_run c]"

definition hooks_called :: "nat \<Rightarrow> codes \<Rightarrow> event list" where
  "hooks_called n c = upto_first_nonzero
     [(Setup n, c_setup c), (PreRun n, c_pre_run c), (Run n, c_run c), (PostRun n, c_post_run c)]"

definition step_trace :: "nat \<Rightarrow> codes \<Rightarrow> event list" where
  "step_trace n c = Instantiate n # hooks_called n c @ [Kill n (step_status c = 0)]"

definition driven :: "codes list \<Rightarrow> codes list" where
  "driven cs = upto_first_nonzero (map (\<lambda>c. (c, step_status c)) cs)"

text \<open>The position of the step an event belongs to.\<close>

fun ev_index :: "event \<Rightarrow> nat" where
  "ev_index (Instantiate n) = n"
| "ev_index (Setup n) = n"
| "ev_index (PreRun n) = n"
| "ev_index (Run n) = n"
| "ev_index (PostRun n) = n"
| "ev_index (Kill n b) = n"

text \<open>The success flags of the calls of \<^verbatim>\<open>kill\<close> on step \<open>n\<close>, in the order of the calls.\<close>

fun kill_flags :: "nat \<Rightarrow> event list \<Rightarrow> bool list" where
  "kill_flags n [] = []"
| "kill_flags n (Kill m b # es) = (if m = n then b # kill_flags n es else kill_flags n es)"
| "kill_flags n (e # es) = kill_flags n es"

text \<open>Example steps: all hooks return 0; the run hook returns 5; the run hook raises.\<close>

definition codes_ok :: codes where
  "codes_ok = \<lparr>c_setup = 0, c_pre_run = 0, c_run = 0, c_post_run = 0, c_kill = (\<lambda>b. 0)\<rparr>"

definition codes_five :: codes where
  "codes_five = \<lparr>c_setup = 0, c_pre_run = 0, c_run = 5, c_post_run = 0, c_kill = (\<lambda>b. 0)\<rparr>"

definition step_ok :: "string step" where
  "step_ok = step_of codes_ok"

definition step_boom :: "string step" where
  "step_boom = \<lparr>step_setup = Returns 0, step_pre_run = Returns 0, step_run = Raises ''boom'',
     step_post_run = Returns 0, step_kill = (\<lambda>b. Returns 0)\<rparr>"

definition example_order :: "string step_class list" where
  "example_order = [Inr step_ok, Inr step_boom, Inr step_ok]"

text \<open>
  The four lifecycle hooks of a step in the order the runner calls them, and the events
  of their calls on step \<open>n\<close>.
\<close>

definition hooks :: "'f step \<Rightarrow> 'f outcome list" where
  "hooks my = [step_setup my, step_pre_run my, step_run my, step_post_run my]"

definition hook_events :: "nat \<Rightarrow> event list" where
  "hook_events n = [Setup n, PreRun n, Run n, PostRun n]"

text \<open>A step whose run hook raises and whose teardown hook raises as well.\<close>

definition step_boom_kill :: "string step" where
  "step_boom_kill = \<lparr>step_setup = Returns 0, step_pre_run = Returns 0,
     step_run = Raises ''boom'', step_post_run = Returns 0,
     step_kill = (\<lambda>b. Raises ''kill failed'')\<rparr>"

section \<open>Python strings and paths (as molecule/settings.py uses them)\<close>

text \<open>
  A string is a list of characters; a \<open>char\<close> stands for a code point below 256 of the
  decoded text. The characters \<^verbatim>\<open>str.strip\<close> removes (those for which
  \<^verbatim>\<open>str.isspace\<close> holds) are, below 256: tab, line feed, vertical tab, form feed,
  carriage return, the separators 0x1C to 0x1F, space, 0x85 and 0xA0.
\<close>

definition is_space :: "char \<Rightarrow> bool" where
  "is_space c = (c \<in> set [CHR 0x09, CHR 0x0A, CHR 0x0B, CHR 0x0C, CHR 0x0D,
     CHR 0x1C, CHR 0x1D, CHR 0x1E, CHR 0x1F, CHR 0x20, CHR 0x85, CHR 0xA0])"

definition lstrip :: "string \<Rightarrow> string" where
  "lstrip s = dropWhile is_space s"

definition rstrip :: "string \<Rightarrow> string" where
  "rstrip s = rev (dropWhile is_space (rev s))"

definition strip :: "string \<Rightarrow> string" where
  "strip s = rstrip (lstrip s)"

definition startswith :: "string \<Rightarrow> string \<Rightarrow> bool" where
  "startswith s p = (take (length p) s = p)"

text \<open>
  \<^verbatim>\<open>s.split(sep, 1)\<close> for a separator of one character: the part before the first
  separator, and the part after it when there is a separator (Python returns a list of one
  or two strings).
\<close>

definition split1 :: "char \<Rightarrow> string \<Rightarrow> string \<times> string option" where
  "split1 sep s =
     (if sep \<in> set s
      then (takeWhile (\<lambda>c. c \<noteq> sep) s, Some (tl (dropWhile (\<lambda>c. c \<noteq> sep) s)))
      else (s, None))"

text \<open>\<^verbatim>\<open>s.rsplit(sep, 1)\<close>: the same at the last separator.\<close>

definition rsplit1 :: "char \<Rightarrow> string \<Rightarrow> string \<times> string option" where
  "rsplit1 sep s =
     (if sep \<in> set s
      then (rev (tl (dropWhile (\<lambda>c. c \<noteq> sep) (rev s))),
            Some (rev (takeWhile (\<lambda>c. c \<noteq> sep) (rev s))))
      else (s, None))"

text \<open>\<^verbatim>\<open>s.split(sep)\<close>: all the fields; the empty string has one empty field.\<close>

fun split_all :: "char \<Rightarrow> string \<Rightarrow> string list" where
  "split_all sep [] = [[]]"
| "split_all sep (c # cs) =
     (if c = sep then [] # split_all sep cs
      else (case split_all sep cs of
              [] \<Rightarrow> [[c]]
            | item # items \<Rightarrow> (c # item) # items))"

text \<open>\<^verbatim>\<open>sep.join(xs)\<close>.\<close>

fun join_sep :: "string \<Rightarrow> string list \<Rightarrow> string" where
  "join_sep sep [] = []"
| "join_sep sep [x] = x"
| "join_sep sep (x # y # zs) = x @ sep @ join_sep sep (y # zs)"

text \<open>
  \<^verbatim>\<open>readlines()\<close> of a \<^verbatim>\<open>codecs\<close> stream is \<^verbatim>\<open>data.splitlines(True)\<close>: the lines
  with their line ends kept. The line boundaries below 256 are line feed, carriage return
  (with a line feed that follows it), vertical tab, form feed, 0x1C, 0x1D, 0x1E and 0x85.
  \<open>cur\<close> holds the characters of the line being read.
\<close>

definition is_linebreak :: "char \<Rightarrow> bool" where
  "is_linebreak c = (c \<in> set [CHR 0x0A, CHR 0x0B, CHR 0x0C, CHR 0x0D,
     CHR 0x1C, CHR 0x1D, CHR 0x1E, CHR 0x85])"

fun splitlines_from :: "string \<Rightarrow> string \<Rightarrow> string list" where
  "splitlines_from cur [] = (if cur = [] then [] else [cur])"
| "splitlines_from cur [c] = (if is_linebreak c then [cur @ [c]] else [cur @ [c]])"
| "splitlines_from cur (c # d # cs) =
     (if c = CHR 0x0D \<and> d = CHR 0x0A then (cur @ [c, d]) # splitlines_from [] cs
      else if is_linebreak c then (cur @ [c]) # splitlines_from [] (d # cs)
      else splitlines_from (cur @ [c]) (d # cs))"

definition readlines :: "string \<Rightarrow> string list" where
  "readlines data = splitlines_from [] data"

text \<open>\<^verbatim>\<open>os.path.dirname\<close> and \<^verbatim>\<open>os.path.join\<close> of two parts (posixpath).\<close>

definition dirname :: "string \<Rightarrow> string" where
  "dirname p =
     (let head = (if CHR ''/'' \<in> set p then rev (dropWhile (\<lambda>c. c \<noteq> CHR ''/'') (rev p)) else [])
      in if head \<noteq> [] \<and> \<not> list_all (\<lambda>c. c = CHR ''/'') head
         then rev (dropWhile (\<lambda>c. c = CHR ''/'') (rev head))
         else head)"

definition path_join :: "string \<Rightarrow> string \<Rightarrow> string" where
  "path_join a b =
     (if startswith b ''/'' then b
      else if a = [] \<or> last a = CHR ''/'' then a @ b
      else a @ ''/'' @ b)"

section \<open>Macro preprocessor (molecule/settings.py, SpecPreprocessor)\<close>

text \<open>
  The exceptions the code raises or lets through. \<open>AttributeError\<close> carries the
  \<^verbatim>\<open>repr\<close> of the exception, the others their message.
\<close>

datatype exn =
    PreprocessorError string
  | SpecFileError string
  | RuntimeError string
  | AttributeError string
  | IndexError
  | TypeError
  | IOError string
  | OtherError string

text \<open>
  What the preprocessor reaches outside itself: the readable regular files with their
  decoded content (\<open>None\<close>: \<^verbatim>\<open>os.path.isfile(path) and os.access(path, os.R_OK)\<close> is
  false), \<^verbatim>\<open>shlex.split\<close>, and \<^verbatim>\<open>molecule.utils.eval_shell_argument\<close> followed by
  \<^verbatim>\<open>bytes.decode\<close>.
\<close>

record env =
  files :: "string \<Rightarrow> string option"
  shlex_split :: "string \<Rightarrow> exn + string list"
  eval_shell_argument :: "string \<Rightarrow> exn + string"

text \<open>A loop that calls \<open>f\<close> on every item in turn; the first exception ends it.\<close>

fun map_exn :: "('a \<Rightarrow> exn + 'b) \<Rightarrow> 'a list \<Rightarrow> exn + 'b list" where
  "map_exn f [] = Inr []"
| "map_exn f (x # xs) =
     (case f x of
        Inl e \<Rightarrow> Inl e
      | Inr y \<Rightarrow> (case map_exn f xs of Inl e \<Rightarrow> Inl e | Inr ys \<Rightarrow> Inr (y # ys)))"

text \<open>
  The target of an import: \<^verbatim>\<open>rest_line\<close> when it starts with \<^verbatim>\<open>os.path.sep\<close>, else
  \<^verbatim>\<open>os.path.join(os.path.dirname(self._spec_path), rest_line)\<close>, where \<^verbatim>\<open>self._spec_path\<close>
  is the path the preprocessor was created with.
\<close>

definition import_path :: "string \<Rightarrow> string \<Rightarrow> string" where
  "import_path spec_path rest_line =
     (if startswith rest_line ''/'' then rest_line
      else path_join (dirname spec_path) rest_line)"

text \<open>
  \<^verbatim>\<open>_import_expander\<close>; \<open>recur\<close> is the recursive call of
  \<^verbatim>\<open>_builtin_recursive_expand\<close>. \<^verbatim>\<open>line.split(" ", 1)[1]\<close> raises \<^verbatim>\<open>IndexError\<close> when
  the line has no space.
\<close>

definition import_expander ::
  "(string \<Rightarrow> exn + string) \<Rightarrow> env \<Rightarrow> string \<Rightarrow> string \<Rightarrow> exn + string" where
  "import_expander recur E spec_path line =
     (case snd (split1 CHR '' '' line) of
        None \<Rightarrow> Inl IndexError
      | Some rest \<Rightarrow>
          (let rest_line = strip rest in
           if rest_line = [] then Inr line
           else (case files E (import_path spec_path rest_line) of
                   None \<Rightarrow> Inl (PreprocessorError (''invalid preprocessor line: '' @ line))
                 | Some data \<Rightarrow>
                     (case map_exn recur (readlines data) of
                        Inl e \<Rightarrow> Inl e
                      | Inr lines \<Rightarrow> Inr (concat lines)))))"

text \<open>The loop of \<^verbatim>\<open>_env_expander\<close> over the arguments.\<close>

fun eval_arguments :: "env \<Rightarrow> string \<Rightarrow> string list \<Rightarrow> exn + string list" where
  "eval_arguments E line [] = Inr []"
| "eval_arguments E line (arg # args) =
     (case eval_shell_argument E arg of
        Inl (AttributeError err) \<Rightarrow>
          Inl (PreprocessorError
                 (''invalid preprocessor line: '' @ [CHR 0x27] @ line @ [CHR 0x27] @ '', error: '' @ err))
      | Inl e \<Rightarrow> Inl e
      | Inr new_arg \<Rightarrow>
          (case eval_arguments E line args of
             Inl e \<Rightarrow> Inl e
           | Inr new_args \<Rightarrow> Inr (new_arg # new_args)))"

definition env_expander :: "(string \<Rightarrow> exn + string) \<Rightarrow> env \<Rightarrow> string \<Rightarrow> exn + string" where
  "env_expander recur E line =
     (case shlex_split E line of
        Inl e \<Rightarrow> Inl e
      | Inr tokens \<Rightarrow>
          (let split_line = drop 1 tokens in
           if split_line = [] then Inr line
           else (case eval_arguments E line split_line of
                   Inl e \<Rightarrow> Inl e
                 | Inr new_split_line \<Rightarrow>
                     recur (join_sep '' '' new_split_line @ [CHR 0x0A]))))"

text \<open>
  The handler of \<^verbatim>\<open>_builtin_recursive_expand\<close>: a \<^verbatim>\<open>RuntimeError\<close> of the expander
  becomes a \<^verbatim>\<open>PreprocessorError\<close>; every other exception passes.
\<close>

definition reraise :: "exn + string \<Rightarrow> exn + string" where
  "reraise r =
     (case r of
        Inl (RuntimeError err) \<Rightarrow> Inl (PreprocessorError (''invalid preprocessor line: '' @ err))
      | _ \<Rightarrow> r)"

text \<open>
  \<^verbatim>\<open>_builtin_recursive_expand\<close>. The two expanders call it again, and nothing in the
  code bounds the nesting (an import cycle): the interpreter does, raising a
  \<^verbatim>\<open>RuntimeError\<close> at its recursion limit, inside the \<^verbatim>\<open>try\<close> of the innermost call, which
  makes it a \<^verbatim>\<open>PreprocessorError\<close>. \<open>depth\<close> is the number of nested expander calls
  the interpreter still allows; a line that is no directive needs none.
\<close>

definition builtin_key :: "string \<Rightarrow> string" where
  "builtin_key line = fst (split1 CHR '' '' (lstrip line))"

primrec builtin_recursive_expand :: "nat \<Rightarrow> env \<Rightarrow> string \<Rightarrow> string \<Rightarrow> exn + string" where
  "builtin_recursive_expand 0 E spec_path line =
     (if builtin_key line = ''%import'' \<or> builtin_key line = ''%env''
      then Inl (PreprocessorError
                  (''invalid preprocessor line: '' @ ''maximum recursion depth exceeded''))
      else Inr line)"
| "builtin_recursive_expand (Suc depth) E spec_path line =
     (if builtin_key line = ''%import''
      then reraise (import_expander (builtin_recursive_expand depth E spec_path) E spec_path line)
      else if builtin_key line = ''%env''
      then reraise (env_expander (builtin_recursive_expand depth E spec_path) E line)
      else Inr line)"

text \<open>
  The expanders registered through \<^verbatim>\<open>add_expander\<close>, by statement; the dictionary holds
  them under \<^verbatim>\<open>PREFIX + statement\<close>, so a key always starts with \<^verbatim>\<open>%\<close>.
\<close>

type_synonym expanders = "string \<Rightarrow> (string \<Rightarrow> exn + string) option"

definition get_expander :: "expanders \<Rightarrow> string \<Rightarrow> (string \<Rightarrow> exn + string) option" where
  "get_expander expanders key =
     (case key of
        [] \<Rightarrow> None
      | c # statement \<Rightarrow> if c = CHR ''%'' then expanders statement else None)"

definition user_expand :: "expanders \<Rightarrow> string \<Rightarrow> exn + string" where
  "user_expand expanders line =
     (case get_expander expanders (fst (split1 CHR '' '' line)) of
        None \<Rightarrow> Inr line
      | Some expander \<Rightarrow> expander line)"

text \<open>\<^verbatim>\<open>SpecPreprocessor.parse\<close>; opening a missing spec file raises \<^verbatim>\<open>IOError\<close>.\<close>

definition SpecPreprocessor_parse ::
  "nat \<Rightarrow> env \<Rightarrow> expanders \<Rightarrow> string \<Rightarrow> exn + string list" where
  "SpecPreprocessor_parse depth E expanders spec_path =
     (case files E spec_path of
        None \<Rightarrow> Inl (IOError spec_path)
      | Some data \<Rightarrow>
          (case map_exn (builtin_recursive_expand depth E spec_path) (readlines data) of
             Inl e \<Rightarrow> Inl e
           | Inr content \<Rightarrow>
               (case map_exn (user_expand expanders) content of
                  Inl e \<Rightarrow> Inl e
                | Inr final_content \<Rightarrow> Inr (split_all CHR 0x0A (concat final_content)))))"

section \<open>Spec parser (molecule/settings.py, SpecParser)\<close>

text \<open>
  The values a parameter parser returns: strings, lists, and values that are neither
  (an integer, \<^verbatim>\<open>None\<close>); \<open>PluginV\<close> is the plugin object stored under
  \<^verbatim>\<open>__plugin__\<close>.
\<close>

datatype pyval = Str string | Lst "pyval list" | IntV int | NoneV | PluginV

text \<open>
  An entry of \<^verbatim>\<open>parameters()\<close>: the callables under \<^verbatim>\<open>'parser'\<close> and
  \<^verbatim>\<open>'verifier'\<close>; the verifier's result is read for its truth value.
\<close>

record schema_entry =
  parser :: "string \<Rightarrow> exn + pyval"
  verifier :: "pyval \<Rightarrow> exn + bool"

record plugin =
  vital_parameters :: "string list"
  parameters :: "string \<Rightarrow> schema_entry option"

text \<open>
  The list comprehension of \<^verbatim>\<open>_generic_parser\<close> over the preprocessed lines, and
  \<^verbatim>\<open>_generic_parser\<close> itself.
\<close>

definition generic_lines :: "string list \<Rightarrow> string list" where
  "generic_lines content =
     map (\<lambda>x. strip (fst (rsplit1 CHR ''#'' (strip x))))
       (filter (\<lambda>x. \<not> startswith x ''#'' \<and> strip x \<noteq> []) content)"

definition generic_parser :: "nat \<Rightarrow> env \<Rightarrow> expanders \<Rightarrow> string \<Rightarrow> exn + string list" where
  "generic_parser depth E expanders filepath =
     (case SpecPreprocessor_parse depth E expanders filepath of
        Inl e \<Rightarrow> Inl e
      | Inr content \<Rightarrow> Inr (generic_lines content))"

text \<open>\<^verbatim>\<open>parse_line_statement\<close>; \<open>None\<close> is the pair \<^verbatim>\<open>(None, None)\<close>.\<close>

definition parse_line_statement :: "string \<Rightarrow> (string \<times> string) option" where
  "parse_line_statement line_stmt =
     (case split1 CHR '':'' line_stmt of
        (key, None) \<Rightarrow> None
      | (key, Some v) \<Rightarrow> Some (strip key, strip v))"

text \<open>
  \<^verbatim>\<open>x += y\<close> on the values of the model: strings and lists concatenate, a list is
  extended by the characters of a string, everything else raises \<^verbatim>\<open>TypeError\<close>.
\<close>

fun iadd :: "pyval \<Rightarrow> pyval \<Rightarrow> exn + pyval" where
  "iadd (Str a) (Str b) = Inr (Str (a @ b))"
| "iadd (Lst a) (Lst b) = Inr (Lst (a @ b))"
| "iadd (Lst a) (Str b) = Inr (Lst (a @ map (\<lambda>c. Str [c]) b))"
| "iadd x y = Inl TypeError"

text \<open>
  The first half of the loop body of \<^verbatim>\<open>parse\<close> (lines 257 to 272): the key, the raw
  value and the schema entry the line resolves to (\<open>None\<close>: the loop continues with the
  next line), and the new \<^verbatim>\<open>old_key\<close>.
\<close>

definition continuation ::
  "(string \<Rightarrow> schema_entry option) \<Rightarrow> string option \<Rightarrow> string
     \<Rightarrow> (string \<times> string \<times> schema_entry) option" where
  "continuation params old_key line =
     (case old_key of
        None \<Rightarrow> None
      | Some key \<Rightarrow>
          (let v = strip line in
           if v = [] then None
           else (case params key of
                   None \<Rightarrow> None
                 | Some check_dict \<Rightarrow> Some (key, v, check_dict))))"

definition resolve ::
  "(string \<Rightarrow> schema_entry option) \<Rightarrow> string option \<Rightarrow> string
     \<Rightarrow> (string \<times> string \<times> schema_entry) option \<times> string option" where
  "resolve params old_key line =
     (case parse_line_statement line of
        None \<Rightarrow> (continuation params old_key line, old_key)
      | Some (v_key, v_value) \<Rightarrow>
          (case params v_key of
             Some check_dict \<Rightarrow> (Some (v_key, v_value, check_dict), Some v_key)
           | None \<Rightarrow> (continuation params old_key line, old_key)))"

text \<open>
  The second half (lines 273 to 284): parser, verifier, and the merge into \<^verbatim>\<open>mydict\<close>.
\<close>

definition accept_pair ::
  "schema_entry \<Rightarrow> string \<Rightarrow> string \<Rightarrow> (string \<Rightarrow> pyval option)
     \<Rightarrow> exn + (string \<Rightarrow> pyval option)" where
  "accept_pair check_dict key raw mydict =
     (case parser check_dict raw of
        Inl e \<Rightarrow> Inl e
      | Inr v \<Rightarrow>
          (case verifier check_dict v of
             Inl e \<Rightarrow> Inl e
           | Inr ok \<Rightarrow>
               if \<not> ok then Inr mydict
               else (case mydict key of
                       None \<Rightarrow> Inr (mydict(key \<mapsto> v))
                     | Some old \<Rightarrow>
                         (case v of
                            Str s \<Rightarrow>
                              (case iadd old (Str (CHR '' '' # s)) of
                                 Inl e \<Rightarrow> Inl e
                               | Inr new \<Rightarrow> Inr (mydict(key \<mapsto> new)))
                          | Lst l \<Rightarrow>
                              (case iadd old (Lst l) of
                                 Inl e \<Rightarrow> Inl e
                               | Inr new \<Rightarrow> Inr (mydict(key \<mapsto> new)))
                          | _ \<Rightarrow> Inr mydict))))"

fun parse_loop ::
  "(string \<Rightarrow> schema_entry option) \<Rightarrow> string list \<Rightarrow> string option
     \<Rightarrow> (string \<Rightarrow> pyval option) \<Rightarrow> exn + (string \<Rightarrow> pyval option)" where
  "parse_loop params [] old_key mydict = Inr mydict"
| "parse_loop params (line # data) old_key mydict =
     (case resolve params old_key line of
        (None, old_key') \<Rightarrow> parse_loop params data old_key' mydict
      | (Some (key, raw, check_dict), old_key') \<Rightarrow>
          (case accept_pair check_dict key raw mydict of
             Inl e \<Rightarrow> Inl e
           | Inr mydict' \<Rightarrow> parse_loop params data old_key' mydict'))"

text \<open>\<^verbatim>\<open>validate_parse\<close>, with the message of its \<^verbatim>\<open>SpecFileError\<close>.\<close>

definition missing_message :: "string \<Rightarrow> string \<Rightarrow> string" where
  "missing_message filepath param =
     ''SpecFileError: '' @ [CHR 0x27] @ filepath @ [CHR 0x27] @ '' missing or invalid ''
       @ [CHR 0x27] @ param @ [CHR 0x27]
       @ '' parameter, it's vital. Your specification file is incomplete!''"

fun validate_parse :: "string \<Rightarrow> string list \<Rightarrow> (string \<Rightarrow> pyval option) \<Rightarrow> exn + unit" where
  "validate_parse filepath [] mydata = Inr ()"
| "validate_parse filepath (param # rest) mydata =
     (if mydata param = None then Inl (SpecFileError (missing_message filepath param))
      else validate_parse filepath rest mydata)"

text \<open>\<^verbatim>\<open>SpecParser.parse\<close>.\<close>

definition SpecParser_parse ::
  "nat \<Rightarrow> env \<Rightarrow> expanders \<Rightarrow> plugin \<Rightarrow> string \<Rightarrow> exn + (string \<Rightarrow> pyval option)" where
  "SpecParser_parse depth E expanders plug filepath =
     (case generic_parser depth E expanders filepath of
        Inl e \<Rightarrow> Inl e
      | Inr data \<Rightarrow>
          (case parse_loop (parameters plug) data None Map.empty of
             Inl e \<Rightarrow> Inl e
           | Inr mydict \<Rightarrow>
               (let mydict' = mydict(''__plugin__'' \<mapsto> PluginV) in
                case validate_parse filepath (vital_parameters plug) mydict' of
                  Inl e \<Rightarrow> Inl e
                | Inr u \<Rightarrow> Inr mydict')))"

subsection \<open>What the specification says of the parser, and examples\<close>

text \<open>
  \<^verbatim>\<open>GenericSpec._comma_separate\<close> (molecule/specs/skel.py), a parser the plugins use
  for list-valued parameters.
\<close>

definition comma_separate :: "string \<Rightarrow> string list" where
  "comma_separate s = filter (\<lambda>x. x \<noteq> []) (map strip (split_all CHR '','' s))"

text \<open>
  An example plugin: a string parameter, a list parameter and an integer parameter (its
  parser returns the length of the text), the first two vital; and two spec files.
\<close>

definition string_entry :: schema_entry where
  "string_entry = \<lparr>parser = (\<lambda>s. Inr (Str s)), verifier = (\<lambda>v. Inr (v \<noteq> Str []))\<rparr>"

definition list_entry :: schema_entry where
  "list_entry = \<lparr>parser = (\<lambda>s. Inr (Lst (map Str (comma_separate s)))),
     verifier = (\<lambda>v. Inr True)\<rparr>"

definition length_entry :: schema_entry where
  "length_entry = \<lparr>parser = (\<lambda>s. Inr (IntV (int (length s)))), verifier = (\<lambda>v. Inr True)\<rparr>"

definition example_plugin :: plugin where
  "example_plugin = \<lparr>vital_parameters = [''release_version'', ''packages''],
     parameters = map_of [(''release_version'', string_entry), (''packages'', list_entry),
       (''level'', length_entry)]\<rparr>"

definition example_env :: env where
  "example_env = \<lparr>files = map_of
       [(''/specs/good.spec'',
           ''execution_strategy: demo\<newline>release_version: 5\<newline>packages: a, b\<newline> c\<newline>''),
        (''/specs/bad.spec'', ''execution_strategy: demo\<newline>release_version: 5\<newline>'')],
     shlex_split = (\<lambda>s. Inl (OtherError ''shlex'')),
     eval_shell_argument = (\<lambda>s. Inl (OtherError ''shell''))\<rparr>"


text \<open>
  The value \<^verbatim>\<open>mydict[key]\<close> holds after lines 276 to 284 ran on an accepted value
  \<open>v\<close>, \<open>cur\<close> being what it held before (\<open>None\<close>: the key was absent).
\<close>

definition merge_value :: "pyval option \<Rightarrow> pyval \<Rightarrow> exn + pyval" where
  "merge_value cur v =
     (case cur of
        None \<Rightarrow> Inr v
      | Some old \<Rightarrow>
          (case v of
             Str s \<Rightarrow> iadd old (Str (CHR '' '' # s))
           | Lst l \<Rightarrow> iadd old (Lst l)
           | _ \<Rightarrow> Inr old))"

text \<open>
  Two schema entries whose parser returns \<^verbatim>\<open>None\<close> (what
  \<^verbatim>\<open>GenericSpec._cast_integer\<close> returns for a text that is no integer): the verifier of
  the first accepts every value, the verifier of the second raises.
\<close>

definition sentinel_entry :: schema_entry where
  "sentinel_entry = \<lparr>parser = (\<lambda>s. Inr NoneV), verifier = (\<lambda>v. Inr True)\<rparr>"

definition probe_entry :: schema_entry where
  "probe_entry = \<lparr>parser = (\<lambda>s. Inr NoneV), verifier = (\<lambda>v. Inl (OtherError ''verifier called''))\<rparr>"

text \<open>
  What the specification says of a resolved pair: a parser result \<^verbatim>\<open>None\<close> discards
  the pair and the verifier is not run.
\<close>

definition spec_accept_pair ::
  "schema_entry \<Rightarrow> string \<Rightarrow> string \<Rightarrow> (string \<Rightarrow> pyval option)
     \<Rightarrow> exn + (string \<Rightarrow> pyval option)" where
  "spec_accept_pair check_dict key raw mydict =
     (case parser check_dict raw of
        Inl e \<Rightarrow> Inl e
      | Inr NoneV \<Rightarrow> Inr mydict
      | Inr v \<Rightarrow>
          (case verifier check_dict v of
             Inl e \<Rightarrow> Inl e
           | Inr ok \<Rightarrow>
               if \<not> ok then Inr mydict
               else (case merge_value (mydict key) v of
                       Inl e \<Rightarrow> Inl e
                     | Inr new \<Rightarrow> Inr (mydict(key \<mapsto> new)))))"

text \<open>
  The pairs of a scan that passed their parser and their verifier, in the order of the
  lines (the loop of \<^verbatim>\<open>parse\<close> without the merge).
\<close>

fun accepted ::
  "(string \<Rightarrow> schema_entry option) \<Rightarrow> string list \<Rightarrow> string option
     \<Rightarrow> exn + (string \<times> pyval) list" where
  "accepted params [] old_key = Inr []"
| "accepted params (line # data) old_key =
     (case resolve params old_key line of
        (None, old_key') \<Rightarrow> accepted params data old_key'
      | (Some (key, raw, check_dict), old_key') \<Rightarrow>
          (case parser check_dict raw of
             Inl e \<Rightarrow> Inl e
           | Inr v \<Rightarrow>
               (case verifier check_dict v of
                  Inl e \<Rightarrow> Inl e
                | Inr ok \<Rightarrow>
                    (case accepted params data old_key' of
                       Inl e \<Rightarrow> Inl e
                     | Inr kvs \<Rightarrow> Inr (if ok then (key, v) # kvs else kvs)))))"

text \<open>The merge of accepted pairs, one after the other.\<close>

fun merge_all ::
  "(string \<times> pyval) list \<Rightarrow> (string \<Rightarrow> pyval option) \<Rightarrow> exn + (string \<Rightarrow> pyval option)" where
  "merge_all [] mydict = Inr mydict"
| "merge_all ((key, v) # kvs) mydict =
     (case merge_value (mydict key) v of
        Inl e \<Rightarrow> Inl e
      | Inr new \<Rightarrow> merge_all kvs (mydict(key \<mapsto> new)))"

text \<open>
  The accepted values of a key, in order of appearance, and the three kinds of value the
  merge tells apart: strings, lists and the others.
\<close>

definition values_of :: "string \<Rightarrow> (string \<times> pyval) list \<Rightarrow> pyval list" where
  "values_of key kvs = map snd (filter (\<lambda>kv. fst kv = key) kvs)"

fun kind :: "pyval \<Rightarrow> nat" where
  "kind (Str s) = 0"
| "kind (Lst l) = 1"
| "kind v = 2"

definition repeated_lines :: "string list" where
  "repeated_lines = [''packages: a, b'', ''c'', ''release_version: 5'', ''release_version: 6'',
     ''level: x'', ''level: yy'']"

text \<open>
  What the specification says of comments: a trailing comment starts at the first
  \<^verbatim>\<open>#\<close> that no backslash precedes, and the generic lines are the lines without their
  comments, stripped, the empty ones (blank lines, full-line comments) removed.
\<close>

fun spec_strip_comment :: "string \<Rightarrow> string" where
  "spec_strip_comment [] = []"
| "spec_strip_comment [c] = (if c = CHR ''#'' then [] else [c])"
| "spec_strip_comment (c # d # cs) =
     (if c = CHR ''#'' then []
      else if c = CHR 0x5C \<and> d = CHR ''#'' then c # d # spec_strip_comment cs
      else c # spec_strip_comment (d # cs))"

definition spec_generic_lines :: "string list \<Rightarrow> string list" where
  "spec_generic_lines content =
     filter (\<lambda>x. x \<noteq> []) (map (\<lambda>x. strip (spec_strip_comment x)) content)"

text \<open>
  A line whose first character after the leading white space is not \<^verbatim>\<open>%\<close> (blank
  lines included).
\<close>

definition directive_free :: "string \<Rightarrow> bool" where
  "directive_free line = (case lstrip line of [] \<Rightarrow> True | c # cs \<Rightarrow> c \<noteq> CHR ''%'')"

text \<open>A spec file with an indented import, and nothing to import.\<close>

definition indented_env :: env where
  "indented_env = \<lparr>files = map_of [(''/specs/a.spec'', '' %import x\<newline>'')],
     shlex_split = (\<lambda>s. Inl (OtherError ''shlex'')),
     eval_shell_argument = (\<lambda>s. Inl (OtherError ''shell''))\<rparr>"




section \<open>Properties of the step runner\<close>

subsection \<open>Helper lemmas\<close>

lemma try_hooks_step_of:
  "try_hooks n (step_of c) = (hooks_called n c, Inr (step_status c))"
  by (simp add: try_hooks_def step_of_def hooks_called_def step_status_def first_nonzero_def)

lemma run_step_step_of:
  "run_step n (step_of c) = (hooks_called n c @ [Kill n (step_status c = 0)], Inr (step_status c))"
  by (simp add: run_step_def try_hooks_step_of) (simp add: step_of_def)

lemma run_loop_step_of:
  "run_loop count (map (\<lambda>c. Inr (step_of c)) cs) =
     (concat (map (\<lambda>(n, c). step_trace n c) (enumerate (Suc count) (driven cs))),
      Inr (first_nonzero (map step_status cs)))"
proof (induction cs arbitrary: count)
  case Nil
  show ?case by (simp add: driven_def first_nonzero_def)
next
  case (Cons c cs)
  show ?case
  proof (cases "step_status c = 0")
    case True
    then show ?thesis
      using Cons.IH [of "Suc count"]
      by (simp add: run_step_step_of driven_def first_nonzero_def step_trace_def)
  next
    case False
    then show ?thesis
      by (simp add: run_step_step_of driven_def first_nonzero_def step_trace_def)
  qed
qed

lemma instantiate_in_step_traces:
  "Instantiate n \<in> set (concat (map (\<lambda>(n, c). step_trace n c) (enumerate k xs)))
   \<longleftrightarrow> k \<le> n \<and> n < k + length xs"
  by (induction xs arbitrary: k) (auto simp: step_trace_def hooks_called_def)

lemma kill_flags_append: "kill_flags n (xs @ ys) = kill_flags n xs @ kill_flags n ys"
  by (induction n xs rule: kill_flags.induct) auto

lemma kill_flags_other: "\<forall>e\<in>set es. ev_index e \<noteq> n \<Longrightarrow> kill_flags n es = []"
  by (induction n es rule: kill_flags.induct) auto

lemma try_hooks_index: "e \<in> set (fst (try_hooks n my)) \<Longrightarrow> ev_index e = n"
  by (auto simp: try_hooks_def split: outcome.splits if_splits)

lemma try_hooks_no_kill: "kill_flags m (fst (try_hooks n my)) = []"
  by (auto simp: try_hooks_def split: outcome.splits if_splits)

lemma run_step_trace:
  "fst (run_step n my) = fst (try_hooks n my) @
     [Kill n (case snd (try_hooks n my) of Inl f \<Rightarrow> False | Inr rc \<Rightarrow> rc = 0)]"
  by (auto simp: run_step_def split: prod.splits sum.splits outcome.splits)

lemma run_step_index: "e \<in> set (fst (run_step n my)) \<Longrightarrow> ev_index e = n"
  by (auto simp: run_step_trace dest: try_hooks_index)

lemma run_loop_index:
  "e \<in> set (fst (run_loop count cs)) \<Longrightarrow> count < ev_index e \<and> ev_index e \<le> count + length cs"
proof (induction cs arbitrary: count e)
  case Nil
  then show ?case by simp
next
  case (Cons c cs)
  show ?case
  proof (cases c)
    case (Inl f)
    with Cons.prems show ?thesis by simp
  next
    case (Inr my)
    obtain tr r where rs: "run_step (Suc count) my = (tr, r)" by (cases "run_step (Suc count) my")
    have tri: "\<And>x. x \<in> set tr \<Longrightarrow> ev_index x = Suc count"
      using run_step_index [of _ "Suc count" my] rs by simp
    show ?thesis
    proof (cases "r = Inr 0")
      case False
      with Cons.prems Inr rs tri show ?thesis
        by (cases r) (auto split: if_splits)
    next
      case True
      obtain tr' res where rl: "run_loop (Suc count) cs = (tr', res)"
        by (cases "run_loop (Suc count) cs")
      have "\<And>x. x \<in> set tr' \<Longrightarrow> Suc count < ev_index x \<and> ev_index x \<le> Suc count + length cs"
        using Cons.IH [where count = "Suc count"] rl by simp
      with Cons.prems Inr rs tri True rl show ?thesis
        by (auto dest: Suc_lessD)
    qed
  qed
qed

text \<open>
  The part of the trace that belongs to a step whose constructor was called and returned:
  its own events stand together, earlier steps before them and later steps after them, and
  nothing follows when the step did not end with status 0.
\<close>

lemma run_loop_segment:
  "count < n \<Longrightarrow> n \<le> count + length cs \<Longrightarrow> cs ! (n - Suc count) = Inr my \<Longrightarrow>
   Instantiate n \<in> set (fst (run_loop count cs)) \<Longrightarrow>
   \<exists>pre post. fst (run_loop count cs) = pre @ Instantiate n # fst (run_step n my) @ post
     \<and> (\<forall>e\<in>set pre. ev_index e < n) \<and> (\<forall>e\<in>set post. n < ev_index e)
     \<and> (snd (run_step n my) \<noteq> Inr 0 \<longrightarrow> post = [] \<and> snd (run_loop count cs) = snd (run_step n my))"
proof (induction cs arbitrary: count)
  case Nil
  then show ?case by simp
next
  case (Cons c cs)
  show ?case
  proof (cases "n = Suc count")
    case True
    with Cons.prems have c: "c = Inr my" by simp
    obtain tr r where rs: "run_step (Suc count) my = (tr, r)" by (cases "run_step (Suc count) my")
    show ?thesis
    proof (cases "r = Inr 0")
      case False
      have "fst (run_loop count (c # cs)) = [] @ Instantiate n # fst (run_step n my) @ []"
        and "snd (run_loop count (c # cs)) = snd (run_step n my)"
        using c rs False True by (cases r; auto)+
      then show ?thesis by (metis empty_iff list.set(1))
    next
      case r0: True
      obtain tr' res where rl: "run_loop (Suc count) cs = (tr', res)"
        by (cases "run_loop (Suc count) cs")
      have idx: "\<forall>e\<in>set tr'. n < ev_index e"
        using run_loop_index [of _ "Suc count" cs] rl True by auto
      have "fst (run_loop count (c # cs)) = [] @ Instantiate n # fst (run_step n my) @ tr'"
        using c rs r0 True rl by simp
      moreover have "snd (run_step n my) = Inr 0" using rs r0 True by simp
      ultimately show ?thesis using idx by (metis empty_iff list.set(1))
    qed
  next
    case False
    with Cons.prems have gt: "Suc count < n" by simp
    show ?thesis
    proof (cases c)
      case (Inl f)
      with Cons.prems gt show ?thesis by simp
    next
      case (Inr my')
      obtain tr r where rs: "run_step (Suc count) my' = (tr, r)" by (cases "run_step (Suc count) my'")
      have tri: "\<forall>x\<in>set tr. ev_index x = Suc count"
        using run_step_index [of _ "Suc count" my'] rs by simp
      have notin: "Instantiate n \<notin> set tr"
        using tri gt by fastforce
      show ?thesis
      proof (cases "r = Inr 0")
        case False
        with Cons.prems Inr rs notin gt show ?thesis
          by (cases r) (auto split: if_splits)
      next
        case True
        obtain tr' res where rl: "run_loop (Suc count) cs = (tr', res)"
          by (cases "run_loop (Suc count) cs")
        have full: "run_loop count (c # cs) = (Instantiate (Suc count) # tr @ tr', res)"
          using Inr rs True rl by simp
        have "Instantiate n \<in> set tr'"
          using Cons.prems(4) full notin gt by auto
        moreover have "cs ! (n - Suc (Suc count)) = Inr my"
          using Cons.prems(3) gt by (simp add: nth_Cons')
        moreover have "n \<le> Suc count + length cs" using Cons.prems(2) by simp
        ultimately obtain pre post where
          p: "tr' = pre @ Instantiate n # fst (run_step n my) @ post"
            "\<forall>e\<in>set pre. ev_index e < n" "\<forall>e\<in>set post. n < ev_index e"
            "snd (run_step n my) \<noteq> Inr 0 \<longrightarrow> post = [] \<and> res = snd (run_step n my)"
          using Cons.IH [of "Suc count"] gt rl by auto
        have "fst (run_loop count (c # cs)) =
            (Instantiate (Suc count) # tr @ pre) @ Instantiate n # fst (run_step n my) @ post"
          using full p(1) by simp
        moreover have "\<forall>e\<in>set (Instantiate (Suc count) # tr @ pre). ev_index e < n"
          using tri p(2) gt by auto
        moreover have "snd (run_loop count (c # cs)) = res" using full by simp
        ultimately show ?thesis using p(3,4) by metis
      qed
    qed
  qed
qed

subsection \<open>Fail-fast execution\<close>

text \<open>
  C1. For every ordered list of steps and every assignment of integer status codes to
  their hooks, the runner calls, for each step in turn, the constructor, then the hooks
  in the order setup, pre_run, run, post_run up to and including the first one that
  returns a non-zero code, then the teardown hook; the steps driven are those up to and
  including the first whose status code is non-zero, no later step is instantiated, and
  \<^verbatim>\<open>run()\<close> returns the first non-zero status code, or 0 when every hook of every
  step returned 0.
\<close>

theorem runner_halts_on_first_nonzero:
  "Runner_run (map (\<lambda>c. Inr (step_of c)) cs) =
     (concat (map (\<lambda>(n, c). step_trace n c) (enumerate 1 (driven cs))),
      Inr (first_nonzero (map step_status cs)))
   \<and> (\<forall>n. length (driven cs) < n \<longrightarrow>
          Instantiate n \<notin> set (fst (Runner_run (map (\<lambda>c. Inr (step_of c)) cs))))"
proof -
  have "Instantiate n \<notin> set (concat (map (\<lambda>(n, c). step_trace n c) (enumerate 1 (driven cs))))"
    if "length (driven cs) < n" for n
    using that by (subst instantiate_in_step_traces) simp
  then show ?thesis
    by (simp only: Runner_run_def run_loop_step_of fst_conv One_nat_def) blast
qed

theorem runner_halts_on_first_nonzero_witness:
  "length (driven [codes_ok, codes_five, codes_ok]) < 3
   \<and> Runner_run (map (\<lambda>c. Inr (step_of c)) [codes_ok, codes_five, codes_ok])
       = ([Instantiate 1, Setup 1, PreRun 1, Run 1, PostRun 1, Kill 1 True,
           Instantiate 2, Setup 2, PreRun 2, Run 2, Kill 2 False], Inr 5 :: unit + int)
   \<and> Instantiate 3 \<notin> set (fst (Runner_run
         (map (\<lambda>c. Inr (step_of c) :: unit step_class) [codes_ok, codes_five, codes_ok])))"
proof -
  have d: "driven [codes_ok, codes_five, codes_ok] = [codes_ok, codes_five]"
    by (simp add: driven_def step_status_def first_nonzero_def codes_ok_def codes_five_def)
  have l: "length (driven [codes_ok, codes_five, codes_ok]) < 3"
    by (simp add: d)
  have t: "concat (map (\<lambda>(n, c). step_trace n c) (enumerate 1 (driven [codes_ok, codes_five, codes_ok])))
      = [Instantiate 1, Setup 1, PreRun 1, Run 1, PostRun 1, Kill 1 True,
           Instantiate 2, Setup 2, PreRun 2, Run 2, Kill 2 False]"
    unfolding d
    by (simp add: step_trace_def hooks_called_def step_status_def first_nonzero_def
        codes_ok_def codes_five_def)
  have r: "first_nonzero (map step_status [codes_ok, codes_five, codes_ok]) = 5"
    by (simp add: step_status_def first_nonzero_def codes_ok_def codes_five_def)
  show ?thesis
    using runner_halts_on_first_nonzero [of "[codes_ok, codes_five, codes_ok]", where ?'a = unit] l
    unfolding t r by blast
qed

subsection \<open>Teardown\<close>

lemma example_order_run:
  "Runner_run example_order =
     ([Instantiate 1, Setup 1, PreRun 1, Run 1, PostRun 1, Kill 1 True,
       Instantiate 2, Setup 2, PreRun 2, Run 2, Kill 2 False], Inl ''boom'')"
  by (simp add: example_order_def Runner_run_def run_step_def try_hooks_def step_ok_def
      step_of_def codes_ok_def step_boom_def)

text \<open>
  The hook at position \<open>k\<close> is reached when the hooks before it returned 0. If it
  raises, the \<^verbatim>\<open>try\<close> block is left with its fault; if it returns a non-zero code, or
  is the last hook, the block is left with its code.
\<close>

lemma try_hooks_reached:
  assumes "k < 4" and "\<forall>j<k. hooks my ! j = Returns 0"
  shows "(hooks my ! k = Raises f \<longrightarrow> try_hooks n my = (take (Suc k) (hook_events n), Inl f))
       \<and> (hooks my ! k = Returns rc \<and> (rc \<noteq> 0 \<or> k = 3) \<longrightarrow>
            try_hooks n my = (take (Suc k) (hook_events n), Inr rc))"
proof -
  consider "k = 0" | "k = 1" | "k = 2" | "k = 3" using assms(1) by linarith
  then show ?thesis
  proof cases
    case 1
    then show ?thesis
      by (auto simp: hooks_def hook_events_def try_hooks_def)
  next
    case 2
    with assms(2) have "step_setup my = Returns 0"
      by (simp add: hooks_def)
    with 2 show ?thesis
      by (auto simp: hooks_def hook_events_def try_hooks_def)
  next
    case 3
    with assms(2) have "hooks my ! 0 = Returns 0" and "hooks my ! 1 = Returns 0"
      by simp_all
    then have "step_setup my = Returns 0" and "step_pre_run my = Returns 0"
      by (simp_all add: hooks_def)
    with 3 show ?thesis
      by (auto simp: hooks_def hook_events_def try_hooks_def numeral_2_eq_2)
  next
    case 4
    with assms(2) have "hooks my ! 0 = Returns 0" and "hooks my ! 1 = Returns 0"
      and "hooks my ! 2 = Returns 0"
      by simp_all
    then have "step_setup my = Returns 0" and "step_pre_run my = Returns 0"
      and "step_run my = Returns 0"
      by (simp_all add: hooks_def)
    with 4 show ?thesis
      by (auto simp: hooks_def hook_events_def try_hooks_def numeral_3_eq_3)
  qed
qed

text \<open>
  C2. Take a step whose constructor the runner called and that it returned, and the
  hook of it at position \<open>k\<close> (setup, pre_run, run, post_run), reached because the hooks
  before it returned 0. If that hook raises a fault \<open>f\<close>, the trace of the whole run
  ends with the hooks called up to it followed by \<^verbatim>\<open>kill(success = False)\<close>, and only
  then does the run end with a fault: the fault \<open>f\<close>, or that of \<^verbatim>\<open>kill\<close> when
  \<^verbatim>\<open>kill\<close> raises itself. If that hook returns the status code \<open>rc\<close> and ends the
  hooks (the code is non-zero, or the hook is post_run), the hooks called are followed
  by \<^verbatim>\<open>kill(success = (rc == 0))\<close>, and no other call of that step's \<^verbatim>\<open>kill\<close> is
  made.
\<close>

theorem runner_kill_on_fault:
  assumes "1 \<le> n" and "n \<le> length cs" and "cs ! (n - 1) = Inr my"
    and "Instantiate n \<in> set (fst (Runner_run cs))"
    and "k < 4" and "\<forall>j<k. hooks my ! j = Returns 0"
  shows "(\<forall>f. hooks my ! k = Raises f \<longrightarrow>
            (\<exists>pre. Runner_run cs =
               (pre @ Instantiate n # take (Suc k) (hook_events n) @ [Kill n False],
                Inl (case step_kill my False of Raises g \<Rightarrow> g | Returns c \<Rightarrow> f))))
       \<and> (\<forall>rc. hooks my ! k = Returns rc \<and> (rc \<noteq> 0 \<or> k = 3) \<longrightarrow>
            (\<exists>pre post. fst (Runner_run cs) =
                 pre @ Instantiate n # take (Suc k) (hook_events n) @ Kill n (rc = 0) # post
               \<and> (\<forall>b. Kill n b \<notin> set pre \<and> Kill n b \<notin> set post)))"
proof -
  have "0 < n" using assms(1) by simp
  moreover have "n \<le> 0 + length cs" using assms(2) by simp
  moreover have "cs ! (n - Suc 0) = Inr my" using assms(3) by simp
  moreover have "Instantiate n \<in> set (fst (run_loop 0 cs))"
    using assms(4) by (simp add: Runner_run_def)
  ultimately obtain pre post where
    p: "fst (run_loop 0 cs) = pre @ Instantiate n # fst (run_step n my) @ post"
       "\<forall>e\<in>set pre. ev_index e < n" "\<forall>e\<in>set post. n < ev_index e"
       "snd (run_step n my) \<noteq> Inr 0 \<longrightarrow> post = [] \<and> snd (run_loop 0 cs) = snd (run_step n my)"
    using run_loop_segment [of 0 n cs my] by auto
  have nk: "\<forall>b. Kill n b \<notin> set pre \<and> Kill n b \<notin> set post"
    using p(2,3) by fastforce
  define h where "h = take (Suc k) (hook_events n)"
  show ?thesis
    unfolding h_def [symmetric]
  proof (intro conjI allI impI)
    fix f assume r: "hooks my ! k = Raises f"
    then have th: "try_hooks n my = (h, Inl f)"
      using try_hooks_reached [OF assms(5,6), of f n] by (simp add: h_def)
    have st: "run_step n my = (h @ [Kill n False],
        Inl (case step_kill my False of Raises g \<Rightarrow> g | Returns c \<Rightarrow> f))"
      using th by (simp add: run_step_def split: outcome.splits)
    then have "post = []" and "snd (run_loop 0 cs) = snd (run_step n my)"
      using p(4) by simp_all
    then have "Runner_run cs = (pre @ Instantiate n # h @ [Kill n False],
        Inl (case step_kill my False of Raises g \<Rightarrow> g | Returns c \<Rightarrow> f))"
      using p(1) st by (simp add: Runner_run_def prod_eq_iff)
    then show "\<exists>pre. Runner_run cs = (pre @ Instantiate n # h @ [Kill n False],
        Inl (case step_kill my False of Raises g \<Rightarrow> g | Returns c \<Rightarrow> f))"
      by blast
  next
    fix rc assume r: "hooks my ! k = Returns rc \<and> (rc \<noteq> 0 \<or> k = 3)"
    then have th: "try_hooks n my = (h, Inr rc)"
      using try_hooks_reached [OF assms(5,6), of _ n rc] by (simp add: h_def)
    have "fst (run_step n my) = h @ [Kill n (rc = 0)]"
      using th by (simp add: run_step_def split: outcome.splits)
    then have "fst (Runner_run cs) = pre @ Instantiate n # h @ Kill n (rc = 0) # post"
      using p(1) by (simp add: Runner_run_def)
    with nk show "\<exists>pre post. fst (Runner_run cs) = pre @ Instantiate n # h @ Kill n (rc = 0) # post
               \<and> (\<forall>b. Kill n b \<notin> set pre \<and> Kill n b \<notin> set post)"
      by blast
  qed
qed

theorem runner_kill_on_fault_witness:
  "(1::nat) \<le> 2 \<and> 2 \<le> length example_order \<and> example_order ! (2 - 1) = Inr step_boom
   \<and> Instantiate 2 \<in> set (fst (Runner_run example_order))
   \<and> (2::nat) < 4 \<and> hooks step_boom ! 0 = Returns 0 \<and> hooks step_boom ! 1 = Returns 0
   \<and> hooks step_boom ! 2 = Raises ''boom''
   \<and> (\<exists>pre. Runner_run example_order =
         (pre @ Instantiate 2 # [Setup 2, PreRun 2, Run 2] @ [Kill 2 False], Inl ''boom''))
   \<and> example_order ! (1 - 1) = Inr step_ok
   \<and> Instantiate 1 \<in> set (fst (Runner_run example_order))
   \<and> (3::nat) < 4 \<and> hooks step_ok ! 0 = Returns 0 \<and> hooks step_ok ! 1 = Returns 0
   \<and> hooks step_ok ! 2 = Returns 0
   \<and> hooks step_ok ! 3 = Returns 0
   \<and> (\<exists>pre post. fst (Runner_run example_order) =
         pre @ Instantiate 1 # [Setup 1, PreRun 1, Run 1, PostRun 1] @ Kill 1 True # post
         \<and> (\<forall>b. Kill 1 b \<notin> set pre \<and> Kill 1 b \<notin> set post))"
proof -
  have a1: "(1::nat) \<le> 2" and a0: "(1::nat) \<le> 1" by simp_all
  have a2: "2 \<le> length example_order" and a2': "1 \<le> length example_order"
    by (simp_all add: example_order_def)
  have a3: "example_order ! (2 - 1) = Inr step_boom"
    and a3': "example_order ! (1 - 1) = Inr step_ok"
    by (simp_all add: example_order_def)
  have a4: "Instantiate 2 \<in> set (fst (Runner_run example_order))"
    and a4': "Instantiate 1 \<in> set (fst (Runner_run example_order))"
    by (simp_all add: example_order_run)
  have a5: "(2::nat) < 4" and a5': "(3::nat) < 4" by simp_all
  have a6: "\<forall>j<2. hooks step_boom ! j = Returns 0"
    by (simp add: hooks_def step_boom_def less_Suc_eq numeral_2_eq_2)
  have a6': "\<forall>j<3. hooks step_ok ! j = Returns 0"
    by (simp add: hooks_def step_ok_def step_of_def codes_ok_def less_Suc_eq numeral_3_eq_3)
  have a7: "hooks step_boom ! 2 = Raises ''boom''"
    by (simp add: hooks_def step_boom_def)
  have b0: "hooks step_boom ! 0 = Returns 0" and b1: "hooks step_boom ! 1 = Returns 0"
    by (simp_all add: hooks_def step_boom_def)
  have b0': "hooks step_ok ! 0 = Returns 0" and b1': "hooks step_ok ! 1 = Returns 0"
    and b2': "hooks step_ok ! 2 = Returns 0"
    by (simp_all add: hooks_def step_ok_def step_of_def codes_ok_def)
  have a7': "hooks step_ok ! 3 = Returns 0"
    by (simp add: hooks_def step_ok_def step_of_def codes_ok_def)
  have k: "step_kill step_boom False = Returns 0" by (simp add: step_boom_def)
  have e: "take (Suc 2) (hook_events 2) = [Setup 2, PreRun 2, Run 2]"
    and e': "take (Suc 3) (hook_events 1) = [Setup 1, PreRun 1, Run 1, PostRun 1]"
    by (simp_all add: hook_events_def)
  have c: "\<exists>pre. Runner_run example_order =
         (pre @ Instantiate 2 # [Setup 2, PreRun 2, Run 2] @ [Kill 2 False], Inl ''boom'')"
    using runner_kill_on_fault [OF a1 a2 a3 a4 a5 a6] a7 unfolding e by (simp add: k)
  have c': "\<exists>pre post. fst (Runner_run example_order) =
         pre @ Instantiate 1 # [Setup 1, PreRun 1, Run 1, PostRun 1] @ Kill 1 True # post
         \<and> (\<forall>b. Kill 1 b \<notin> set pre \<and> Kill 1 b \<notin> set post)"
    using runner_kill_on_fault [OF a0 a2' a3' a4' a5' a6'] a7' unfolding e' by simp
  show ?thesis
    using a1 a2 a3 a4 a5 b0 b1 a7 c a3' a4' a5' b0' b1' b2' a7' c' by blast
qed

text \<open>
  C10 as stated fails on the fault path when the teardown hook raises too: the handler
  calls \<^verbatim>\<open>my.kill(success = False)\<close> before its \<^verbatim>\<open>raise\<close>, so the fault of
  \<^verbatim>\<open>kill\<close> leaves the handler and the fault of the hook is not raised again.
\<close>

theorem kill_fault_replaces_hook_fault:
  "hooks step_boom_kill ! 2 = Raises ''boom''
   \<and> kill_flags 1 (fst (Runner_run [Inr step_boom_kill])) = [False]
   \<and> snd (Runner_run [Inr step_boom_kill]) = Inl ''kill failed''
   \<and> snd (Runner_run [Inr step_boom_kill]) \<noteq> Inl ''boom''"
  by (simp add: hooks_def step_boom_kill_def Runner_run_def run_step_def try_hooks_def)

text \<open>
  C10, amended. For every step whose constructor the runner called and that it
  returned, the teardown hook \<^verbatim>\<open>kill\<close> of that step is called exactly once in the
  whole run. When a hook that is reached (the hooks before it returned 0) raises a
  fault, the one call is \<^verbatim>\<open>kill(success = False)\<close> and the run ends with a fault: the
  fault of the hook, raised again, when \<^verbatim>\<open>kill\<close> returns, and the fault of \<^verbatim>\<open>kill\<close>
  in its place when \<^verbatim>\<open>kill\<close> raises. When the hooks end with a status code \<open>rc\<close>
  (non-zero, or that of post_run), the one call is \<^verbatim>\<open>kill(success = (rc == 0))\<close>.
\<close>

theorem runner_kill_exactly_once:
  assumes "1 \<le> n" and "n \<le> length cs" and "cs ! (n - 1) = Inr my"
    and "Instantiate n \<in> set (fst (Runner_run cs))"
  shows "length (kill_flags n (fst (Runner_run cs))) = 1
       \<and> (\<forall>k f. k < 4 \<and> (\<forall>j<k. hooks my ! j = Returns 0) \<and> hooks my ! k = Raises f \<longrightarrow>
            kill_flags n (fst (Runner_run cs)) = [False]
            \<and> snd (Runner_run cs)
                = Inl (case step_kill my False of Raises g \<Rightarrow> g | Returns c \<Rightarrow> f))
       \<and> (\<forall>k rc. k < 4 \<and> (\<forall>j<k. hooks my ! j = Returns 0) \<and> hooks my ! k = Returns rc
              \<and> (rc \<noteq> 0 \<or> k = 3) \<longrightarrow>
            kill_flags n (fst (Runner_run cs)) = [rc = 0])"
proof -
  have "0 < n" using assms(1) by simp
  moreover have "n \<le> 0 + length cs" using assms(2) by simp
  moreover have "cs ! (n - Suc 0) = Inr my" using assms(3) by simp
  moreover have "Instantiate n \<in> set (fst (run_loop 0 cs))"
    using assms(4) by (simp add: Runner_run_def)
  ultimately obtain pre post where
    p: "fst (run_loop 0 cs) = pre @ Instantiate n # fst (run_step n my) @ post"
       "\<forall>e\<in>set pre. ev_index e < n" "\<forall>e\<in>set post. n < ev_index e"
       "snd (run_step n my) \<noteq> Inr 0 \<longrightarrow> post = [] \<and> snd (run_loop 0 cs) = snd (run_step n my)"
    using run_loop_segment [of 0 n cs my] by auto
  have "kill_flags n pre = []" using p(2) by (intro kill_flags_other) auto
  moreover have "kill_flags n post = []" using p(3) by (intro kill_flags_other) auto
  ultimately have kf: "kill_flags n (fst (Runner_run cs)) =
      [case snd (try_hooks n my) of Inl f \<Rightarrow> False | Inr rc \<Rightarrow> rc = 0]"
    using p(1) by (simp add: Runner_run_def kill_flags_append run_step_trace try_hooks_no_kill)
  have once: "length (kill_flags n (fst (Runner_run cs))) = 1"
    unfolding kf by simp
  have fault: "kill_flags n (fst (Runner_run cs)) = [False]
      \<and> snd (Runner_run cs) = Inl (case step_kill my False of Raises g \<Rightarrow> g | Returns c \<Rightarrow> f)"
    if a: "k < 4 \<and> (\<forall>j<k. hooks my ! j = Returns 0) \<and> hooks my ! k = Raises f" for k f
  proof -
    have th: "try_hooks n my = (take (Suc k) (hook_events n), Inl f)"
      using try_hooks_reached [of k my f n] a by simp
    have st: "snd (run_step n my)
        = Inl (case step_kill my False of Raises g \<Rightarrow> g | Returns c \<Rightarrow> f)"
      using th by (simp add: run_step_def split: outcome.splits)
    then have "snd (run_loop 0 cs) = snd (run_step n my)"
      using p(4) by simp
    with st kf th show ?thesis by (simp add: Runner_run_def)
  qed
  have status: "kill_flags n (fst (Runner_run cs)) = [rc = 0]"
    if a: "k < 4 \<and> (\<forall>j<k. hooks my ! j = Returns 0) \<and> hooks my ! k = Returns rc
        \<and> (rc \<noteq> 0 \<or> k = 3)" for k rc
  proof -
    have th: "try_hooks n my = (take (Suc k) (hook_events n), Inr rc)"
      using try_hooks_reached [of k my _ n rc] a by simp
    with kf show ?thesis by simp
  qed
  from once fault status show ?thesis by blast
qed

theorem runner_kill_exactly_once_witness:
  "(1::nat) \<le> 2 \<and> 2 \<le> length example_order \<and> example_order ! (2 - 1) = Inr step_boom
   \<and> Instantiate 2 \<in> set (fst (Runner_run example_order))
   \<and> (2::nat) < 4 \<and> hooks step_boom ! 0 = Returns 0 \<and> hooks step_boom ! 1 = Returns 0
   \<and> hooks step_boom ! 2 = Raises ''boom''
   \<and> kill_flags 2 (fst (Runner_run example_order)) = [False]
   \<and> snd (Runner_run example_order) = Inl ''boom''
   \<and> example_order ! (1 - 1) = Inr step_ok
   \<and> Instantiate 1 \<in> set (fst (Runner_run example_order))
   \<and> (3::nat) < 4 \<and> hooks step_ok ! 0 = Returns 0 \<and> hooks step_ok ! 1 = Returns 0
   \<and> hooks step_ok ! 2 = Returns 0
   \<and> hooks step_ok ! 3 = Returns 0
   \<and> kill_flags 1 (fst (Runner_run example_order)) = [True]"
proof -
  have a1: "(1::nat) \<le> 2" and a0: "(1::nat) \<le> 1" by simp_all
  have a2: "2 \<le> length example_order" and a2': "1 \<le> length example_order"
    by (simp_all add: example_order_def)
  have a3: "example_order ! (2 - 1) = Inr step_boom"
    and a3': "example_order ! (1 - 1) = Inr step_ok"
    by (simp_all add: example_order_def)
  have a4: "Instantiate 2 \<in> set (fst (Runner_run example_order))"
    and a4': "Instantiate 1 \<in> set (fst (Runner_run example_order))"
    by (simp_all add: example_order_run)
  have a5: "(2::nat) < 4" and a5': "(3::nat) < 4" by simp_all
  have a6: "\<forall>j<2. hooks step_boom ! j = Returns 0"
    by (simp add: hooks_def step_boom_def less_Suc_eq numeral_2_eq_2)
  have a6': "\<forall>j<3. hooks step_ok ! j = Returns 0"
    by (simp add: hooks_def step_ok_def step_of_def codes_ok_def less_Suc_eq numeral_3_eq_3)
  have a7: "hooks step_boom ! 2 = Raises ''boom''"
    by (simp add: hooks_def step_boom_def)
  have b0: "hooks step_boom ! 0 = Returns 0" and b1: "hooks step_boom ! 1 = Returns 0"
    by (simp_all add: hooks_def step_boom_def)
  have b0': "hooks step_ok ! 0 = Returns 0" and b1': "hooks step_ok ! 1 = Returns 0"
    and b2': "hooks step_ok ! 2 = Returns 0"
    by (simp_all add: hooks_def step_ok_def step_of_def codes_ok_def)
  have a7': "hooks step_ok ! 3 = Returns 0"
    by (simp add: hooks_def step_ok_def step_of_def codes_ok_def)
  have k: "step_kill step_boom False = Returns 0" by (simp add: step_boom_def)
  note t = runner_kill_exactly_once [OF a1 a2 a3 a4]
  note t' = runner_kill_exactly_once [OF a0 a2' a3' a4']
  have c: "kill_flags 2 (fst (Runner_run example_order)) = [False]
      \<and> snd (Runner_run example_order) = Inl ''boom''"
    using t a5 a6 a7 k by (metis outcome.simps(5))
  have "kill_flags 1 (fst (Runner_run example_order)) = [(0::int) = 0]"
    using t' a5' a6' a7' by blast
  then have c': "kill_flags 1 (fst (Runner_run example_order)) = [True]"
    by simp
  show ?thesis
    using a1 a2 a3 a4 a5 b0 b1 a7 c a3' a4' a5' b0' b1' b2' a7' c' by blast
qed

section \<open>Properties of the spec parser\<close>

subsection \<open>Vital parameters\<close>

lemma validate_parse_present:
  "list_all (\<lambda>p. mydata p \<noteq> None) vs \<Longrightarrow> validate_parse filepath vs mydata = Inr ()"
  by (induction vs) auto

lemma validate_parse_missing:
  "find (\<lambda>p. mydata p = None) vs = Some p \<Longrightarrow>
   validate_parse filepath vs mydata = Inl (SpecFileError (missing_message filepath p))"
  by (induction vs) (auto split: if_splits)

text \<open>The example spec files, evaluated.\<close>

lemma good_generic: "generic_parser 0 example_env (\<lambda>s. None) ''/specs/good.spec''
   = Inr [''execution_strategy: demo'', ''release_version: 5'', ''packages: a, b'', ''c'']"
  by (simp add: generic_parser_def SpecPreprocessor_parse_def example_env_def readlines_def
      is_linebreak_def builtin_key_def split1_def lstrip_def is_space_def user_expand_def
      get_expander_def generic_lines_def startswith_def strip_def rstrip_def rsplit1_def)

lemmas eval_defs = generic_parser_def SpecPreprocessor_parse_def readlines_def
      is_linebreak_def builtin_key_def split1_def lstrip_def is_space_def user_expand_def
      get_expander_def generic_lines_def startswith_def strip_def rstrip_def rsplit1_def
      resolve_def parse_line_statement_def continuation_def accept_pair_def

lemma good_loop: "parse_loop (parameters example_plugin)
   [''execution_strategy: demo'', ''release_version: 5'', ''packages: a, b'', ''c''] None Map.empty
   = Inr [''release_version'' \<mapsto> Str ''5'', ''packages'' \<mapsto> Lst [Str ''a'', Str ''b'', Str ''c'']]"
  by (simp add: example_plugin_def eval_defs string_entry_def list_entry_def comma_separate_def)

lemma bad_generic: "generic_parser 0 example_env (\<lambda>s. None) ''/specs/bad.spec''
   = Inr [''execution_strategy: demo'', ''release_version: 5'']"
  by (simp add: eval_defs example_env_def)

lemma bad_loop: "parse_loop (parameters example_plugin)
   [''execution_strategy: demo'', ''release_version: 5''] None Map.empty
   = Inr [''release_version'' \<mapsto> Str ''5'']"
  by (simp add: example_plugin_def eval_defs string_entry_def list_entry_def comma_separate_def)

text \<open>
  C3. Let \<open>result\<close> be the mapping \<^verbatim>\<open>parse\<close> has built when it reaches
  \<^verbatim>\<open>validate_parse\<close>: the merged pairs and the reserved entry \<^verbatim>\<open>__plugin__\<close>. If a
  vital parameter is absent from it, \<^verbatim>\<open>parse\<close> raises a \<^verbatim>\<open>SpecFileError\<close> whose
  message is \<^verbatim>\<open>SpecFileError: '<path>' missing or invalid '<param>' parameter, it's vital. Your specification file is incomplete!\<close>,
  with the spec file path and the first vital parameter that is absent, both between
  quotes; otherwise \<^verbatim>\<open>parse\<close> returns \<open>result\<close>, which holds the reserved entry.
\<close>

theorem parse_checks_vital_parameters:
  assumes "generic_parser depth E expanders filepath = Inr data"
    and "parse_loop (parameters plug) data None Map.empty = Inr mydict"
    and "result = mydict(''__plugin__'' \<mapsto> PluginV)"
  shows "(\<forall>p. find (\<lambda>p. result p = None) (vital_parameters plug) = Some p \<longrightarrow>
            p \<in> set (vital_parameters plug) \<and> p \<notin> dom result
            \<and> SpecParser_parse depth E expanders plug filepath
                = Inl (SpecFileError
                    (''SpecFileError: '' @ [CHR 0x27] @ filepath @ [CHR 0x27]
                      @ '' missing or invalid '' @ [CHR 0x27] @ p @ [CHR 0x27]
                      @ '' parameter, it's vital. Your specification file is incomplete!'')))
       \<and> ((\<exists>p \<in> set (vital_parameters plug). p \<notin> dom result) \<longrightarrow>
            (\<exists>p. find (\<lambda>p. result p = None) (vital_parameters plug) = Some p))
       \<and> ((\<forall>p \<in> set (vital_parameters plug). p \<in> dom result) \<longrightarrow>
            SpecParser_parse depth E expanders plug filepath = Inr result
            \<and> result ''__plugin__'' = Some PluginV)"
proof (intro conjI allI impI)
  fix p assume f: "find (\<lambda>p. result p = None) (vital_parameters plug) = Some p"
  then show "p \<in> set (vital_parameters plug)"
    by (auto simp: find_Some_iff)
  from f show "p \<notin> dom result"
    by (auto simp: find_Some_iff)
  from f have "SpecParser_parse depth E expanders plug filepath
                = Inl (SpecFileError (missing_message filepath p))"
    using assms by (simp add: SpecParser_parse_def validate_parse_missing)
  then show "SpecParser_parse depth E expanders plug filepath
                = Inl (SpecFileError
                    (''SpecFileError: '' @ [CHR 0x27] @ filepath @ [CHR 0x27]
                      @ '' missing or invalid '' @ [CHR 0x27] @ p @ [CHR 0x27]
                      @ '' parameter, it's vital. Your specification file is incomplete!''))"
    by (simp only: missing_message_def)
next
  assume "\<exists>p \<in> set (vital_parameters plug). p \<notin> dom result"
  then have "find (\<lambda>p. result p = None) (vital_parameters plug) \<noteq> None"
    by (auto simp: find_None_iff)
  then show "\<exists>p. find (\<lambda>p. result p = None) (vital_parameters plug) = Some p"
    by auto
next
  assume a: "\<forall>p \<in> set (vital_parameters plug). p \<in> dom result"
  then have "list_all (\<lambda>p. result p \<noteq> None) (vital_parameters plug)"
    by (auto simp: list_all_iff)
  then show "SpecParser_parse depth E expanders plug filepath = Inr result"
    using assms by (simp add: SpecParser_parse_def validate_parse_present)
  show "result ''__plugin__'' = Some PluginV"
    using assms(3) by simp
qed

theorem parse_checks_vital_parameters_witness:
  "generic_parser 0 example_env (\<lambda>s. None) ''/specs/bad.spec''
     = Inr [''execution_strategy: demo'', ''release_version: 5'']
   \<and> parse_loop (parameters example_plugin)
        [''execution_strategy: demo'', ''release_version: 5''] None Map.empty
     = Inr [''release_version'' \<mapsto> Str ''5'']
   \<and> find (\<lambda>p. [''release_version'' \<mapsto> Str ''5'', ''__plugin__'' \<mapsto> PluginV] p = None)
        (vital_parameters example_plugin) = Some ''packages''
   \<and> SpecParser_parse 0 example_env (\<lambda>s. None) example_plugin ''/specs/bad.spec''
     = Inl (SpecFileError
         ''SpecFileError: '/specs/bad.spec' missing or invalid 'packages' parameter, it's vital. Your specification file is incomplete!'')
   \<and> generic_parser 0 example_env (\<lambda>s. None) ''/specs/good.spec''
     = Inr [''execution_strategy: demo'', ''release_version: 5'', ''packages: a, b'', ''c'']
   \<and> SpecParser_parse 0 example_env (\<lambda>s. None) example_plugin ''/specs/good.spec''
     = Inr [''release_version'' \<mapsto> Str ''5'',
            ''packages'' \<mapsto> Lst [Str ''a'', Str ''b'', Str ''c''], ''__plugin__'' \<mapsto> PluginV]"
proof -
  have f: "find (\<lambda>p. [''release_version'' \<mapsto> Str ''5'', ''__plugin__'' \<mapsto> PluginV] p = None)
        (vital_parameters example_plugin) = Some ''packages''"
    by (simp add: example_plugin_def)
  have "SpecParser_parse 0 example_env (\<lambda>s. None) example_plugin ''/specs/bad.spec''
     = Inl (SpecFileError
         (''SpecFileError: '' @ [CHR 0x27] @ ''/specs/bad.spec'' @ [CHR 0x27]
           @ '' missing or invalid '' @ [CHR 0x27] @ ''packages'' @ [CHR 0x27]
           @ '' parameter, it's vital. Your specification file is incomplete!''))"
    using parse_checks_vital_parameters [OF bad_generic bad_loop refl] f by blast
  then have bad: "SpecParser_parse 0 example_env (\<lambda>s. None) example_plugin ''/specs/bad.spec''
     = Inl (SpecFileError
         ''SpecFileError: '/specs/bad.spec' missing or invalid 'packages' parameter, it's vital. Your specification file is incomplete!'')"
    by simp
  have v: "\<forall>p \<in> set (vital_parameters example_plugin).
      p \<in> dom [''release_version'' \<mapsto> Str ''5'',
            ''packages'' \<mapsto> Lst [Str ''a'', Str ''b'', Str ''c''], ''__plugin__'' \<mapsto> PluginV]"
    by (simp add: example_plugin_def)
  have good: "SpecParser_parse 0 example_env (\<lambda>s. None) example_plugin ''/specs/good.spec''
     = Inr [''release_version'' \<mapsto> Str ''5'',
            ''packages'' \<mapsto> Lst [Str ''a'', Str ''b'', Str ''c''], ''__plugin__'' \<mapsto> PluginV]"
    using parse_checks_vital_parameters [OF good_generic good_loop refl] v by blast
  show ?thesis
    using bad_generic bad_loop f bad good_generic good by blast
qed

subsection \<open>Scanning the generic lines\<close>

lemma accept_pair_merge:
  "parser check_dict raw = Inr v \<Longrightarrow> verifier check_dict v = Inr True \<Longrightarrow>
   accept_pair check_dict key raw mydict =
     (case merge_value (mydict key) v of
        Inl e \<Rightarrow> Inl e
      | Inr new \<Rightarrow> Inr (mydict(key \<mapsto> new)))"
  by (cases v) (auto simp: accept_pair_def merge_value_def fun_upd_idem split: option.splits sum.splits)



subsection \<open>Parser and verifier\<close>

text \<open>
  C7 as stated fails. The parser of \<open>sentinel_entry\<close> signals "invalid" by returning
  \<^verbatim>\<open>None\<close>; the specification discards the pair, the code runs the verifier on
  \<^verbatim>\<open>None\<close> and, the verifier accepting it, stores \<^verbatim>\<open>None\<close> under the key. With
  \<open>probe_entry\<close> the exception of the verifier shows that it was called.
\<close>

theorem sentinel_not_discarded:
  "parser sentinel_entry ''x'' = Inr NoneV
   \<and> spec_accept_pair sentinel_entry ''k'' ''x'' Map.empty = Inr Map.empty
   \<and> parse_loop [''k'' \<mapsto> sentinel_entry] [''k: x''] None Map.empty = Inr [''k'' \<mapsto> NoneV]
   \<and> spec_accept_pair probe_entry ''k'' ''x'' Map.empty = Inr Map.empty
   \<and> parse_loop [''k'' \<mapsto> probe_entry] [''k: x''] None Map.empty
       = Inl (OtherError ''verifier called'')"
  by (simp add: sentinel_entry_def probe_entry_def spec_accept_pair_def eval_defs)

text \<open>
  C7, amended. For every line that resolves to a key, a raw payload and a schema entry:
  the parser is applied first and an exception of it ends the parse; the verifier is then
  run on whatever the parser returned, a value such as \<^verbatim>\<open>None\<close> by which the parser
  signals "invalid" included (the engine tests no sentinel of its own), and an exception
  of it ends the parse; a pair the verifier rejects is discarded, the scan going on with
  the mapping as it was; a pair the verifier accepts goes through the accumulation of
  lines 276 to 284: it is stored when the key is new and merged with the stored value
  otherwise (a string appended after a space, a list extended, a value of another type
  leaving the mapping as it was, a \<^verbatim>\<open>TypeError\<close> of \<^verbatim>\<open>+=\<close> ending the parse); and
  only a pair the verifier accepts changes the mapping.
\<close>

theorem parse_runs_parser_then_verifier:
  assumes "resolve params old_key line = (Some (key, raw, check_dict), old_key')"
  shows "(\<forall>e. parser check_dict raw = Inl e \<longrightarrow>
            parse_loop params (line # data) old_key mydict = Inl e)
       \<and> (\<forall>v. parser check_dict raw = Inr v \<longrightarrow>
            (\<forall>e. verifier check_dict v = Inl e \<longrightarrow>
               parse_loop params (line # data) old_key mydict = Inl e)
          \<and> (verifier check_dict v = Inr False \<longrightarrow>
               parse_loop params (line # data) old_key mydict
                 = parse_loop params data old_key' mydict)
          \<and> (verifier check_dict v = Inr True \<longrightarrow>
               parse_loop params (line # data) old_key mydict =
                 (case mydict key of
                    None \<Rightarrow> parse_loop params data old_key' (mydict(key \<mapsto> v))
                  | Some old \<Rightarrow>
                      (case v of
                         Str s \<Rightarrow>
                           (case iadd old (Str (CHR '' '' # s)) of
                              Inl e \<Rightarrow> Inl e
                            | Inr new \<Rightarrow> parse_loop params data old_key' (mydict(key \<mapsto> new)))
                       | Lst l \<Rightarrow>
                           (case iadd old (Lst l) of
                              Inl e \<Rightarrow> Inl e
                            | Inr new \<Rightarrow> parse_loop params data old_key' (mydict(key \<mapsto> new)))
                       | _ \<Rightarrow> parse_loop params data old_key' mydict)))
          \<and> (\<forall>mydict'. parse_loop params [line] old_key mydict = Inr mydict'
                 \<and> mydict' \<noteq> mydict \<longrightarrow> verifier check_dict v = Inr True))"
proof -
  have pl: "parse_loop params (line # rest) old_key mydict =
     (case accept_pair check_dict key raw mydict of
             Inl e \<Rightarrow> Inl e
           | Inr mydict' \<Rightarrow> parse_loop params rest old_key' mydict')" for rest
    using assms by simp
  have 1: "parser check_dict raw = Inl e \<Longrightarrow> accept_pair check_dict key raw mydict = Inl e" for e
    by (simp add: accept_pair_def)
  have 2: "parser check_dict raw = Inr v \<Longrightarrow> verifier check_dict v = Inl e \<Longrightarrow>
      accept_pair check_dict key raw mydict = Inl e" for e v
    by (simp add: accept_pair_def)
  have 3: "parser check_dict raw = Inr v \<Longrightarrow> verifier check_dict v = Inr False \<Longrightarrow>
      accept_pair check_dict key raw mydict = Inr mydict" for v
    by (simp add: accept_pair_def)
  have 4: "parse_loop params (line # data) old_key mydict =
      (case mydict key of
         None \<Rightarrow> parse_loop params data old_key' (mydict(key \<mapsto> v))
       | Some old \<Rightarrow>
           (case v of
              Str s \<Rightarrow>
                (case iadd old (Str (CHR '' '' # s)) of
                   Inl e \<Rightarrow> Inl e
                 | Inr new \<Rightarrow> parse_loop params data old_key' (mydict(key \<mapsto> new)))
            | Lst l \<Rightarrow>
                (case iadd old (Lst l) of
                   Inl e \<Rightarrow> Inl e
                 | Inr new \<Rightarrow> parse_loop params data old_key' (mydict(key \<mapsto> new)))
            | _ \<Rightarrow> parse_loop params data old_key' mydict))"
    if "parser check_dict raw = Inr v" and "verifier check_dict v = Inr True" for v
    unfolding pl using that
    by (simp add: accept_pair_def split: option.splits pyval.splits sum.splits)
  have pl1: "parse_loop params [line] old_key mydict =
     (case accept_pair check_dict key raw mydict of
             Inl e \<Rightarrow> Inl e
           | Inr mydict' \<Rightarrow> Inr mydict')"
    unfolding pl by (simp split: sum.splits)
  have 5: "verifier check_dict v = Inr True"
    if a: "parser check_dict raw = Inr v"
      and b: "parse_loop params [line] old_key mydict = Inr mydict' \<and> mydict' \<noteq> mydict"
    for v mydict'
  proof -
    from b have c: "accept_pair check_dict key raw mydict = Inr mydict'"
      and d: "mydict' \<noteq> mydict"
      unfolding pl1 by (simp_all split: sum.splits)
    show ?thesis
    proof (cases "verifier check_dict v")
      case (Inl e)
      with a c 2 [of v e] show ?thesis by simp
    next
      case (Inr ok)
      with a c d 3 [of v] show ?thesis by (cases ok) simp_all
    qed
  qed
  show ?thesis
  proof (intro conjI allI impI)
    fix e assume "parser check_dict raw = Inl e"
    then show "parse_loop params (line # data) old_key mydict = Inl e"
      unfolding pl by (simp add: 1)
  next
    fix v e assume "parser check_dict raw = Inr v" and "verifier check_dict v = Inl e"
    then show "parse_loop params (line # data) old_key mydict = Inl e"
      unfolding pl by (simp add: 2)
  next
    fix v assume "parser check_dict raw = Inr v" and "verifier check_dict v = Inr False"
    then show "parse_loop params (line # data) old_key mydict
        = parse_loop params data old_key' mydict"
      unfolding pl by (simp add: 3)
  next
    fix v assume "parser check_dict raw = Inr v" and "verifier check_dict v = Inr True"
    then show "parse_loop params (line # data) old_key mydict =
      (case mydict key of
         None \<Rightarrow> parse_loop params data old_key' (mydict(key \<mapsto> v))
       | Some old \<Rightarrow>
           (case v of
              Str s \<Rightarrow>
                (case iadd old (Str (CHR '' '' # s)) of
                   Inl e \<Rightarrow> Inl e
                 | Inr new \<Rightarrow> parse_loop params data old_key' (mydict(key \<mapsto> new)))
            | Lst l \<Rightarrow>
                (case iadd old (Lst l) of
                   Inl e \<Rightarrow> Inl e
                 | Inr new \<Rightarrow> parse_loop params data old_key' (mydict(key \<mapsto> new)))
            | _ \<Rightarrow> parse_loop params data old_key' mydict))"
      by (rule 4)
  next
    fix v mydict'
    assume "parser check_dict raw = Inr v"
      and "parse_loop params [line] old_key mydict = Inr mydict' \<and> mydict' \<noteq> mydict"
    then show "verifier check_dict v = Inr True" by (rule 5)
  qed
qed

subsection \<open>Repeated keys\<close>

lemma accept_pair_rejected:
  "parser check_dict raw = Inr v \<Longrightarrow> verifier check_dict v = Inr False \<Longrightarrow>
   accept_pair check_dict key raw mydict = Inr mydict"
  by (simp add: accept_pair_def)

lemma parse_loop_merge_all:
  "accepted params data old_key = Inr kvs \<Longrightarrow>
   parse_loop params data old_key mydict = merge_all kvs mydict"
proof (induction data arbitrary: old_key kvs mydict)
  case Nil
  then show ?case by simp
next
  case (Cons line data)
  obtain r old_key' where res: "resolve params old_key line = (r, old_key')"
    by (cases "resolve params old_key line")
  show ?case
  proof (cases r)
    case None
    with Cons res show ?thesis by simp
  next
    case (Some t)
    obtain key raw check_dict where t: "t = (key, raw, check_dict)" by (cases t)
    from Cons.prems res Some t obtain v ok kvs' where
      p: "parser check_dict raw = Inr v" and ve: "verifier check_dict v = Inr ok"
      and a: "accepted params data old_key' = Inr kvs'"
      and k: "kvs = (if ok then (key, v) # kvs' else kvs')"
      by (auto split: sum.splits)
    show ?thesis
    proof (cases ok)
      case True
      have pl: "parse_loop params (line # data) old_key mydict =
          (case accept_pair check_dict key raw mydict of
             Inl e \<Rightarrow> Inl e
           | Inr mydict' \<Rightarrow> parse_loop params data old_key' mydict')"
        using res Some t by simp
      have ap: "accept_pair check_dict key raw mydict =
          (case merge_value (mydict key) v of
             Inl e \<Rightarrow> Inl e
           | Inr new \<Rightarrow> Inr (mydict(key \<mapsto> new)))"
        using p ve True by (simp add: accept_pair_merge)
      have kv: "kvs = (key, v) # kvs'" using k True by simp
      show ?thesis
      proof (cases "merge_value (mydict key) v")
        case (Inl e)
        then show ?thesis unfolding pl ap kv by simp
      next
        case (Inr new)
        have "parse_loop params data old_key' (mydict(key \<mapsto> new))
            = merge_all kvs' (mydict(key \<mapsto> new))"
          by (rule Cons.IH [OF a])
        then show ?thesis unfolding pl ap kv using Inr by simp
      qed
    next
      case False
      with res Some t p ve a k Cons.IH [OF a] show ?thesis
        by (simp add: accept_pair_rejected)
    qed
  qed
qed

lemma join_sep_Cons:
  "join_sep sep (x # xs) = x @ concat (map (\<lambda>y. sep @ y) xs)"
  by (induction xs arbitrary: x) auto

lemma merge_all_strings:
  "merge_all kvs d0 = Inr d \<Longrightarrow> values_of k kvs = map Str ss \<Longrightarrow> d0 k = Some (Str a) \<Longrightarrow>
   d k = Some (Str (a @ concat (map (\<lambda>s. '' '' @ s) ss)))"
proof (induction kvs arbitrary: d0 a ss)
  case Nil
  then show ?case by (simp add: values_of_def)
next
  case (Cons kv kvs)
  obtain key v where kv: "kv = (key, v)" by (cases kv)
  from Cons.prems(1) kv obtain new where
    m: "merge_value (d0 key) v = Inr new" and r: "merge_all kvs (d0(key \<mapsto> new)) = Inr d"
    by (auto split: sum.splits)
  show ?case
  proof (cases "key = k")
    case True
    with Cons.prems(2) kv obtain s ss' where s: "v = Str s" "ss = s # ss'"
      "values_of k kvs = map Str ss'"
      by (auto simp: values_of_def)
    from m True s Cons.prems(3) have "new = Str (a @ '' '' @ s)"
      by (simp add: merge_value_def)
    with Cons.IH [OF r s(3), of "a @ '' '' @ s"] True s show ?thesis by simp
  next
    case False
    with Cons.prems(2) kv have "values_of k kvs = map Str ss" by (simp add: values_of_def)
    with Cons.IH [OF r this, of a] False Cons.prems(3) show ?thesis by simp
  qed
qed

lemma merge_all_lists:
  "merge_all kvs d0 = Inr d \<Longrightarrow> values_of k kvs = map Lst ls \<Longrightarrow> d0 k = Some (Lst a) \<Longrightarrow>
   d k = Some (Lst (a @ concat ls))"
proof (induction kvs arbitrary: d0 a ls)
  case Nil
  then show ?case by (simp add: values_of_def)
next
  case (Cons kv kvs)
  obtain key v where kv: "kv = (key, v)" by (cases kv)
  from Cons.prems(1) kv obtain new where
    m: "merge_value (d0 key) v = Inr new" and r: "merge_all kvs (d0(key \<mapsto> new)) = Inr d"
    by (auto split: sum.splits)
  show ?case
  proof (cases "key = k")
    case True
    with Cons.prems(2) kv obtain l ls' where s: "v = Lst l" "ls = l # ls'"
      "values_of k kvs = map Lst ls'"
      by (auto simp: values_of_def)
    from m True s Cons.prems(3) have "new = Lst (a @ l)"
      by (simp add: merge_value_def)
    with Cons.IH [OF r s(3), of "a @ l"] True s show ?thesis by simp
  next
    case False
    with Cons.prems(2) kv have "values_of k kvs = map Lst ls" by (simp add: values_of_def)
    with Cons.IH [OF r this, of a] False Cons.prems(3) show ?thesis by simp
  qed
qed

lemma merge_all_others:
  "merge_all kvs d0 = Inr d \<Longrightarrow> list_all (\<lambda>x. kind x = 2) (values_of k kvs) \<Longrightarrow>
   d0 k = Some v0 \<Longrightarrow> d k = Some v0"
proof (induction kvs arbitrary: d0)
  case Nil
  then show ?case by simp
next
  case (Cons kv kvs)
  obtain key v where kv: "kv = (key, v)" by (cases kv)
  from Cons.prems(1) kv obtain new where
    m: "merge_value (d0 key) v = Inr new" and r: "merge_all kvs (d0(key \<mapsto> new)) = Inr d"
    by (auto split: sum.splits)
  from Cons.prems(2) kv have rest: "list_all (\<lambda>x. kind x = 2) (values_of k kvs)"
    by (cases "key = k") (simp_all add: values_of_def)
  show ?case
  proof (cases "key = k")
    case True
    with Cons.prems(2) kv have "kind v = 2" by (simp add: values_of_def)
    with m True Cons.prems(3) have "new = v0"
      by (cases v) (simp_all add: merge_value_def)
    with Cons.IH [OF r rest] True show ?thesis by simp
  next
    case False
    with Cons.IH [OF r rest] Cons.prems(3) show ?thesis by simp
  qed
qed

lemma merge_all_first:
  "merge_all kvs d0 = Inr d \<Longrightarrow> values_of k kvs = v # vs \<Longrightarrow> d0 k = None \<Longrightarrow>
   \<exists>pre post. kvs = pre @ (k, v) # post \<and> values_of k pre = [] \<and> values_of k post = vs
     \<and> (\<exists>d1. d1 k = Some v \<and> merge_all post d1 = Inr d)"
proof (induction kvs arbitrary: d0)
  case Nil
  then show ?case by (simp add: values_of_def)
next
  case (Cons kv kvs)
  obtain key v' where kv: "kv = (key, v')" by (cases kv)
  from Cons.prems(1) kv obtain new where
    m: "merge_value (d0 key) v' = Inr new" and r: "merge_all kvs (d0(key \<mapsto> new)) = Inr d"
    by (auto split: sum.splits)
  show ?case
  proof (cases "key = k")
    case True
    with Cons.prems(2) kv have e: "v' = v" "values_of k kvs = vs" by (simp_all add: values_of_def)
    from m True Cons.prems(3) e have "new = v" by (simp add: merge_value_def)
    with r True have "(d0(key \<mapsto> new)) k = Some v \<and> merge_all kvs (d0(key \<mapsto> new)) = Inr d"
      by simp
    then have ex: "\<exists>d1. d1 k = Some v \<and> merge_all kvs d1 = Inr d"
      by blast
    have "kv # kvs = [] @ (k, v) # kvs \<and> values_of k [] = [] \<and> values_of k kvs = vs"
      using kv True e by (simp add: values_of_def)
    with ex show ?thesis by blast
  next
    case False
    with Cons.prems(2) kv have "values_of k kvs = v # vs" by (simp add: values_of_def)
    moreover have "(d0(key \<mapsto> new)) k = None" using False Cons.prems(3) by simp
    ultimately obtain pre post d1 where
      p: "kvs = pre @ (k, v) # post" "values_of k pre = []" "values_of k post = vs"
         "d1 k = Some v" "merge_all post d1 = Inr d"
      using Cons.IH [OF r] by blast
    have "kv # kvs = (kv # pre) @ (k, v) # post \<and> values_of k (kv # pre) = []"
      using p(1,2) kv False by (simp add: values_of_def)
    with p(3,4,5) show ?thesis by blast
  qed
qed

text \<open>
  C4. For every key and the values accepted for it during a parse that returns: if the
  values are strings, the result mapping holds them joined with single spaces in order of
  appearance; if they are lists, it holds their concatenation in order; if they are of
  any other type, it holds the first accepted value, the later ones being dropped.
\<close>

theorem repeated_keys_accumulate:
  assumes "accepted params data None = Inr kvs"
    and "parse_loop params data None Map.empty = Inr d"
  shows "(\<forall>s ss. values_of k kvs = map Str (s # ss) \<longrightarrow>
            d k = Some (Str (join_sep '' '' (s # ss))))
       \<and> (\<forall>l ls. values_of k kvs = map Lst (l # ls) \<longrightarrow>
            d k = Some (Lst (concat (l # ls))))
       \<and> (\<forall>v vs. values_of k kvs = v # vs \<and> list_all (\<lambda>x. kind x = 2) (v # vs) \<longrightarrow>
            d k = Some v)"
proof -
  have m: "merge_all kvs Map.empty = Inr d"
    using parse_loop_merge_all [OF assms(1)] assms(2) by simp
  have first: "\<exists>post d1. values_of k post = vs \<and> d1 k = Some v \<and> merge_all post d1 = Inr d"
    if "values_of k kvs = v # vs" for v vs
    using merge_all_first [OF m that] by auto
  show ?thesis
  proof (intro conjI allI impI)
    fix s ss assume "values_of k kvs = map Str (s # ss)"
    then obtain post d1 where "values_of k post = map Str ss" "d1 k = Some (Str s)"
      "merge_all post d1 = Inr d"
      using first [of "Str s" "map Str ss"] by auto
    then show "d k = Some (Str (join_sep '' '' (s # ss)))"
      using merge_all_strings [of post d1 d k ss s] by (simp add: join_sep_Cons)
  next
    fix l ls assume "values_of k kvs = map Lst (l # ls)"
    then obtain post d1 where "values_of k post = map Lst ls" "d1 k = Some (Lst l)"
      "merge_all post d1 = Inr d"
      using first [of "Lst l" "map Lst ls"] by auto
    then show "d k = Some (Lst (concat (l # ls)))"
      using merge_all_lists [of post d1 d k ls l] by simp
  next
    fix v vs assume a: "values_of k kvs = v # vs \<and> list_all (\<lambda>x. kind x = 2) (v # vs)"
    then obtain post d1 where "values_of k post = vs" "d1 k = Some v"
      "merge_all post d1 = Inr d"
      using first [of v vs] by auto
    then show "d k = Some v"
      using merge_all_others [of post d1 d k v] a by simp
  qed
qed

lemma repeated_accepted:
  "accepted (parameters example_plugin) repeated_lines None =
     Inr [(''packages'', Lst [Str ''a'', Str ''b'']), (''packages'', Lst [Str ''c'']),
          (''release_version'', Str ''5''), (''release_version'', Str ''6''),
          (''level'', IntV 1), (''level'', IntV 2)]"
  by (simp add: repeated_lines_def example_plugin_def eval_defs string_entry_def list_entry_def
      length_entry_def comma_separate_def)

lemma repeated_parse:
  "parse_loop (parameters example_plugin) repeated_lines None Map.empty =
     Inr [''packages'' \<mapsto> Lst [Str ''a'', Str ''b'', Str ''c''],
          ''release_version'' \<mapsto> Str ''5 6'', ''level'' \<mapsto> IntV 1]"
  by (simp add: repeated_lines_def example_plugin_def eval_defs string_entry_def list_entry_def
      length_entry_def comma_separate_def)

theorem repeated_keys_accumulate_witness:
  "accepted (parameters example_plugin) repeated_lines None =
     Inr [(''packages'', Lst [Str ''a'', Str ''b'']), (''packages'', Lst [Str ''c'']),
          (''release_version'', Str ''5''), (''release_version'', Str ''6''),
          (''level'', IntV 1), (''level'', IntV 2)]
   \<and> parse_loop (parameters example_plugin) repeated_lines None Map.empty =
     Inr [''packages'' \<mapsto> Lst [Str ''a'', Str ''b'', Str ''c''],
          ''release_version'' \<mapsto> Str ''5 6'', ''level'' \<mapsto> IntV 1]
   \<and> [''packages'' \<mapsto> Lst [Str ''a'', Str ''b'', Str ''c''],
          ''release_version'' \<mapsto> Str ''5 6'', ''level'' \<mapsto> IntV 1] ''release_version''
       = Some (Str (join_sep '' '' [''5'', ''6'']))
   \<and> [''packages'' \<mapsto> Lst [Str ''a'', Str ''b'', Str ''c''],
          ''release_version'' \<mapsto> Str ''5 6'', ''level'' \<mapsto> IntV 1] ''packages''
       = Some (Lst (concat [[Str ''a'', Str ''b''], [Str ''c'']]))
   \<and> [''packages'' \<mapsto> Lst [Str ''a'', Str ''b'', Str ''c''],
          ''release_version'' \<mapsto> Str ''5 6'', ''level'' \<mapsto> IntV 1] ''level''
       = Some (IntV 1)"
proof -
  note t = repeated_keys_accumulate [OF repeated_accepted repeated_parse]
  have 1: "[''packages'' \<mapsto> Lst [Str ''a'', Str ''b'', Str ''c''],
          ''release_version'' \<mapsto> Str ''5 6'', ''level'' \<mapsto> IntV 1] ''release_version''
       = Some (Str (join_sep '' '' [''5'', ''6'']))"
    using t [of "''release_version''"] by (simp add: values_of_def)
  have 2: "[''packages'' \<mapsto> Lst [Str ''a'', Str ''b'', Str ''c''],
          ''release_version'' \<mapsto> Str ''5 6'', ''level'' \<mapsto> IntV 1] ''packages''
       = Some (Lst (concat [[Str ''a'', Str ''b''], [Str ''c'']]))"
    using t [of "''packages''"] by (simp add: values_of_def)
  have 3: "[''packages'' \<mapsto> Lst [Str ''a'', Str ''b'', Str ''c''],
          ''release_version'' \<mapsto> Str ''5 6'', ''level'' \<mapsto> IntV 1] ''level''
       = Some (IntV 1)"
    using t [of "''level''"] by (simp add: values_of_def)
  show ?thesis using repeated_accepted repeated_parse 1 2 3 by blast
qed

lemma sentinel_resolve:
  "resolve [''k'' \<mapsto> sentinel_entry] None ''k: x'' = (Some (''k'', ''x'', sentinel_entry), Some ''k'')"
  by (simp add: eval_defs)

lemma level_resolve:
  "resolve (parameters example_plugin) (Some ''level'') ''level: yy''
     = (Some (''level'', ''yy'', length_entry), Some ''level'')"
  by (simp add: eval_defs example_plugin_def)

theorem parse_runs_parser_then_verifier_witness:
  "resolve [''k'' \<mapsto> sentinel_entry] None ''k: x'' = (Some (''k'', ''x'', sentinel_entry), Some ''k'')
   \<and> parser sentinel_entry ''x'' = Inr NoneV
   \<and> verifier sentinel_entry NoneV = Inr True
   \<and> parse_loop [''k'' \<mapsto> sentinel_entry] [''k: x''] None Map.empty = Inr [''k'' \<mapsto> NoneV]
   \<and> resolve (parameters example_plugin) (Some ''level'') ''level: yy''
       = (Some (''level'', ''yy'', length_entry), Some ''level'')
   \<and> parser length_entry ''yy'' = Inr (IntV 2)
   \<and> verifier length_entry (IntV 2) = Inr True
   \<and> parse_loop (parameters example_plugin) [''level: yy''] (Some ''level'')
        [''level'' \<mapsto> IntV 1] = Inr [''level'' \<mapsto> IntV 1]"
proof -
  have p: "parser sentinel_entry ''x'' = Inr NoneV" by (simp add: sentinel_entry_def)
  have v: "verifier sentinel_entry NoneV = Inr True" by (simp add: sentinel_entry_def)
  have p': "parser length_entry ''yy'' = Inr (IntV 2)" by (simp add: length_entry_def)
  have v': "verifier length_entry (IntV 2) = Inr True" by (simp add: length_entry_def)
  have "parse_loop [''k'' \<mapsto> sentinel_entry] [''k: x''] None Map.empty =
      (case Map.empty ''k'' of
         None \<Rightarrow> parse_loop [''k'' \<mapsto> sentinel_entry] [] (Some ''k'') [''k'' \<mapsto> NoneV]
       | Some old \<Rightarrow>
           (case NoneV of
              Str s \<Rightarrow>
                (case iadd old (Str (CHR '' '' # s)) of
                   Inl e \<Rightarrow> Inl e
                 | Inr new \<Rightarrow> parse_loop [''k'' \<mapsto> sentinel_entry] [] (Some ''k'') [''k'' \<mapsto> new])
            | Lst l \<Rightarrow>
                (case iadd old (Lst l) of
                   Inl e \<Rightarrow> Inl e
                 | Inr new \<Rightarrow> parse_loop [''k'' \<mapsto> sentinel_entry] [] (Some ''k'') [''k'' \<mapsto> new])
            | _ \<Rightarrow> parse_loop [''k'' \<mapsto> sentinel_entry] [] (Some ''k'') Map.empty))"
    using parse_runs_parser_then_verifier [OF sentinel_resolve, where data = "[]"
        and mydict = Map.empty] p v
    by blast
  then have 1: "parse_loop [''k'' \<mapsto> sentinel_entry] [''k: x''] None Map.empty
      = Inr [''k'' \<mapsto> NoneV]"
    by simp
  have "parse_loop (parameters example_plugin) [''level: yy''] (Some ''level'')
        [''level'' \<mapsto> IntV 1] =
      (case [''level'' \<mapsto> IntV 1] ''level'' of
         None \<Rightarrow> parse_loop (parameters example_plugin) [] (Some ''level'')
                   ([''level'' \<mapsto> IntV 1](''level'' \<mapsto> IntV 2))
       | Some old \<Rightarrow>
           (case IntV 2 of
              Str s \<Rightarrow>
                (case iadd old (Str (CHR '' '' # s)) of
                   Inl e \<Rightarrow> Inl e
                 | Inr new \<Rightarrow> parse_loop (parameters example_plugin) [] (Some ''level'')
                     ([''level'' \<mapsto> IntV 1](''level'' \<mapsto> new)))
            | Lst l \<Rightarrow>
                (case iadd old (Lst l) of
                   Inl e \<Rightarrow> Inl e
                 | Inr new \<Rightarrow> parse_loop (parameters example_plugin) [] (Some ''level'')
                     ([''level'' \<mapsto> IntV 1](''level'' \<mapsto> new)))
            | _ \<Rightarrow> parse_loop (parameters example_plugin) [] (Some ''level'')
                     [''level'' \<mapsto> IntV 1]))"
    using parse_runs_parser_then_verifier [OF level_resolve, where data = "[]"
        and mydict = "[''level'' \<mapsto> IntV 1]"] p' v'
    by blast
  then have 2: "parse_loop (parameters example_plugin) [''level: yy''] (Some ''level'')
        [''level'' \<mapsto> IntV 1] = Inr [''level'' \<mapsto> IntV 1]"
    by simp
  show ?thesis
    using sentinel_resolve p v 1 level_resolve p' v' 2 by blast
qed

subsection \<open>Comments\<close>

lemma not_space_hash: "\<not> is_space CHR ''#''"
  by (simp add: is_space_def)

lemma lstrip_append_nonspace:
  "\<not> is_space c \<Longrightarrow> lstrip (pre @ c # post) = lstrip pre @ c # post"
  by (simp add: lstrip_def dropWhile_append)

lemma rstrip_append_nonspace:
  "\<not> is_space c \<Longrightarrow> rstrip (pre @ c # post) = pre @ c # rstrip post"
  by (simp add: rstrip_def dropWhile_append)

lemma strip_append_nonspace:
  "\<not> is_space c \<Longrightarrow> strip (pre @ c # post) = lstrip pre @ c # rstrip post"
  by (simp add: strip_def lstrip_append_nonspace rstrip_append_nonspace)

lemma set_rstrip: "set (rstrip s) \<subseteq> set s"
  unfolding rstrip_def using set_dropWhileD [of _ is_space "rev s"] by auto

lemma set_lstrip: "set (lstrip s) \<subseteq> set s"
  unfolding lstrip_def using set_dropWhileD [of _ is_space s] by auto

lemma set_strip: "set (strip s) \<subseteq> set s"
  unfolding strip_def using set_rstrip set_lstrip by blast

lemma rsplit1_last:
  "sep \<notin> set post \<Longrightarrow> rsplit1 sep (pre @ sep # post) = (pre, Some post)"
  by (simp add: rsplit1_def dropWhile_append takeWhile_append)

lemma rsplit1_none: "sep \<notin> set s \<Longrightarrow> rsplit1 sep s = (s, None)"
  by (simp add: rsplit1_def)

lemma lstrip_idem: "lstrip (lstrip s) = lstrip s"
  by (simp add: lstrip_def)

lemma rstrip_idem: "rstrip (rstrip s) = rstrip s"
  by (simp add: rstrip_def)

lemma lstrip_rstrip_lstrip: "lstrip (rstrip (lstrip s)) = rstrip (lstrip s)"
proof (cases "lstrip s")
  case Nil
  have "rstrip [] = []" by (simp add: rstrip_def)
  moreover have "lstrip [] = []" by (simp add: lstrip_def)
  ultimately show ?thesis unfolding Nil by simp
next
  case (Cons a ys)
  then have a: "\<not> is_space a"
    unfolding lstrip_def using hd_dropWhile [of is_space s] by (metis list.distinct(1) list.sel(1))
  then have "rstrip (a # ys) = a # rstrip ys"
    using rstrip_append_nonspace [of a "[]" ys] by simp
  with a Cons show ?thesis by (simp add: lstrip_def)
qed

lemma strip_idem: "strip (strip s) = strip s"
  by (simp add: strip_def lstrip_rstrip_lstrip rstrip_idem)

lemma strip_lstrip: "strip (lstrip s) = strip s"
  by (simp add: strip_def lstrip_idem)

lemma generic_lines_append:
  "generic_lines (xs @ ys) = generic_lines xs @ generic_lines ys"
  by (simp add: generic_lines_def)

text \<open>
  C6 as stated fails: the code cuts at the last \<^verbatim>\<open>#\<close> of the line, escaped or not.
  The line \<^verbatim>\<open>opt: a\#b\<close> has no unescaped \<^verbatim>\<open>#\<close> and loses \<^verbatim>\<open>#b\<close>; the line
  \<^verbatim>\<open>a # b # c\<close> keeps \<^verbatim>\<open># b\<close>, text after an unescaped \<^verbatim>\<open>#\<close>.
\<close>

theorem escaped_hash_starts_comment:
  "generic_lines [''opt: a'' @ [CHR 0x5C] @ ''#b''] = [''opt: a'' @ [CHR 0x5C]]
   \<and> spec_generic_lines [''opt: a'' @ [CHR 0x5C] @ ''#b''] = [''opt: a'' @ [CHR 0x5C] @ ''#b'']
   \<and> generic_lines [''a # b # c''] = [''a # b'']
   \<and> spec_generic_lines [''a # b # c''] = [''a'']"
  by (simp add: generic_lines_def spec_generic_lines_def startswith_def strip_def lstrip_def
      rstrip_def rsplit1_def is_space_def)

text \<open>
  C6, amended. The generic line set is obtained from the preprocessed lines, each on its
  own: a line that is blank or starts with \<^verbatim>\<open>#\<close> in its first column is removed; a
  line without \<^verbatim>\<open>#\<close> is kept, stripped; a line with a \<^verbatim>\<open>#\<close> is cut at its last
  \<^verbatim>\<open>#\<close>, whatever precedes that character (no escape is recognised), and what stands
  before it is kept, stripped.
\<close>

theorem generic_lines_cut_at_last_hash:
  "generic_lines (xs @ ys) = generic_lines xs @ generic_lines ys
   \<and> (startswith x ''#'' \<or> strip x = [] \<longrightarrow> generic_lines [x] = [])
   \<and> (CHR ''#'' \<notin> set x \<and> strip x \<noteq> [] \<longrightarrow> generic_lines [x] = [strip x])
   \<and> (CHR ''#'' \<notin> set post \<and> \<not> startswith (pre @ CHR ''#'' # post) ''#'' \<longrightarrow>
        generic_lines [pre @ CHR ''#'' # post] = [strip pre])"
proof (intro conjI impI)
  show "generic_lines (xs @ ys) = generic_lines xs @ generic_lines ys"
    by (rule generic_lines_append)
  show "generic_lines [x] = []" if "startswith x ''#'' \<or> strip x = []"
    using that by (auto simp: generic_lines_def)
  show "generic_lines [x] = [strip x]" if a: "CHR ''#'' \<notin> set x \<and> strip x \<noteq> []"
  proof -
    have "\<not> startswith x ''#''"
      using a by (cases x) (auto simp: startswith_def)
    moreover have "CHR ''#'' \<notin> set (strip x)"
      using a set_strip [of x] by blast
    ultimately show ?thesis
      using a by (simp add: generic_lines_def rsplit1_none strip_idem)
  qed
  show "generic_lines [pre @ CHR ''#'' # post] = [strip pre]"
    if a: "CHR ''#'' \<notin> set post \<and> \<not> startswith (pre @ CHR ''#'' # post) ''#''"
  proof -
    have s: "strip (pre @ CHR ''#'' # post) = lstrip pre @ CHR ''#'' # rstrip post"
      by (rule strip_append_nonspace [OF not_space_hash])
    have "CHR ''#'' \<notin> set (rstrip post)"
      using a set_rstrip [of post] by blast
    then have "fst (rsplit1 CHR ''#'' (strip (pre @ CHR ''#'' # post))) = lstrip pre"
      by (simp add: s rsplit1_last)
    then show ?thesis
      using a s by (simp add: generic_lines_def strip_lstrip)
  qed
qed

theorem generic_lines_cut_at_last_hash_witness:
  "\<not> (startswith ''key: v'' ''#'' \<or> strip ''key: v'' = [])
   \<and> startswith ''# note'' ''#''
   \<and> generic_lines [''# note''] = []
   \<and> CHR ''#'' \<notin> set ''  key: v '' \<and> strip ''  key: v '' \<noteq> []
   \<and> generic_lines [''  key: v ''] = [''key: v'']
   \<and> CHR ''#'' \<notin> set '' c'' \<and> \<not> startswith (''a # b '' @ CHR ''#'' # '' c'') ''#''
   \<and> generic_lines [''a # b '' @ CHR ''#'' # '' c''] = [''a # b'']"
proof -
  have 1: "startswith ''# note'' ''#''" by (simp add: startswith_def)
  have 2: "CHR ''#'' \<notin> set ''  key: v '' \<and> strip ''  key: v '' \<noteq> []"
    by (simp add: strip_def lstrip_def rstrip_def is_space_def)
  have 3: "CHR ''#'' \<notin> set '' c'' \<and> \<not> startswith (''a # b '' @ CHR ''#'' # '' c'') ''#''"
    by (simp add: startswith_def)
  have 4: "\<not> (startswith ''key: v'' ''#'' \<or> strip ''key: v'' = [])"
    by (simp add: startswith_def strip_def lstrip_def rstrip_def is_space_def)
  have s2: "strip ''  key: v '' = ''key: v''"
    by (simp add: strip_def lstrip_def rstrip_def is_space_def)
  have s3: "strip ''a # b '' = ''a # b''"
    by (simp add: strip_def lstrip_def rstrip_def is_space_def)
  have a: "generic_lines [''# note''] = []"
    using generic_lines_cut_at_last_hash [where x = "''# note''"] 1 by blast
  have b: "generic_lines [''  key: v ''] = [''key: v'']"
    using generic_lines_cut_at_last_hash [where x = "''  key: v ''"] 2 s2 by metis
  have c: "generic_lines [''a # b '' @ CHR ''#'' # '' c''] = [''a # b'']"
    using generic_lines_cut_at_last_hash [where pre = "''a # b ''" and post = "'' c''"] 3 s3
    by metis
  show ?thesis using 1 2 3 4 a b c by blast
qed

section \<open>Properties of the macro preprocessor\<close>

subsection \<open>Text without directives\<close>

lemma splitlines_from_concat: "concat (splitlines_from cur s) = cur @ s"
  by (induction cur s rule: splitlines_from.induct) auto

lemma concat_readlines: "concat (readlines data) = data"
  by (simp add: readlines_def splitlines_from_concat)

lemma split_all_nonempty: "split_all sep s \<noteq> []"
  by (induction s) (auto split: list.splits)

lemma join_sep_Cons_Cons: "join_sep sep ((c # x) # xs) = c # join_sep sep (x # xs)"
  by (cases xs) auto

lemma join_split_all: "join_sep [sep] (split_all sep s) = s"
proof (induction s)
  case Nil
  show ?case by simp
next
  case (Cons c s)
  obtain x xs where sp: "split_all sep s = x # xs"
    using split_all_nonempty [of sep s] by (cases "split_all sep s") auto
  show ?case
  proof (cases "c = sep")
    case True
    with Cons sp show ?thesis by simp
  next
    case False
    with Cons sp show ?thesis by (simp add: join_sep_Cons_Cons)
  qed
qed

lemma split1_fst_head:
  "fst (split1 sep s) = [] \<or> (\<exists>cs. s \<noteq> [] \<and> fst (split1 sep s) = hd s # cs)"
  by (cases s) (auto simp: split1_def)

lemma builtin_key_directive_free:
  assumes "directive_free line"
  shows "builtin_key line \<noteq> ''%import''" and "builtin_key line \<noteq> ''%env''"
proof -
  have "builtin_key line = [] \<or> (\<exists>cs. lstrip line \<noteq> [] \<and> builtin_key line = hd (lstrip line) # cs)"
    unfolding builtin_key_def by (rule split1_fst_head)
  moreover have "lstrip line \<noteq> [] \<Longrightarrow> hd (lstrip line) \<noteq> CHR ''%''"
    using assms by (cases "lstrip line") (auto simp: directive_free_def)
  ultimately show "builtin_key line \<noteq> ''%import''" and "builtin_key line \<noteq> ''%env''"
    by auto
qed

lemma expand_directive_free:
  "directive_free line \<Longrightarrow> builtin_recursive_expand depth E spec_path line = Inr line"
  by (cases depth) (simp_all add: builtin_key_directive_free)

lemma directive_free_head: "directive_free line \<Longrightarrow> line = [] \<or> hd line \<noteq> CHR ''%''"
  by (cases line) (auto simp: directive_free_def lstrip_def is_space_def split: if_splits)

lemma user_expand_directive_free:
  assumes "directive_free line"
  shows "user_expand expanders line = Inr line"
proof -
  have "fst (split1 CHR '' '' line) = []
      \<or> (\<exists>cs. line \<noteq> [] \<and> fst (split1 CHR '' '' line) = hd line # cs)"
    by (rule split1_fst_head)
  then have "get_expander expanders (fst (split1 CHR '' '' line)) = None"
    using directive_free_head [OF assms] by (auto simp: get_expander_def)
  then show ?thesis by (simp add: user_expand_def)
qed

lemma map_exn_identity:
  "list_all (\<lambda>x. f x = Inr x) xs \<Longrightarrow> map_exn f xs = Inr xs"
  by (induction xs) auto

text \<open>
  C9 as stated fails: no line of the text \<^verbatim>\<open>" %import x\n"\<close> begins with \<^verbatim>\<open>%\<close>, yet
  \<^verbatim>\<open>_builtin_recursive_expand\<close> strips the leading white space before it looks the
  directive up, and the parse ends with a \<^verbatim>\<open>PreprocessorError\<close>.
\<close>

theorem indented_directive_expanded:
  "files indented_env ''/specs/a.spec'' = Some '' %import x\<newline>''
   \<and> readlines '' %import x\<newline>'' = ['' %import x\<newline>'']
   \<and> \<not> startswith '' %import x\<newline>'' ''%''
   \<and> SpecPreprocessor_parse 10 indented_env (\<lambda>s. None) ''/specs/a.spec''
       = Inl (PreprocessorError ''invalid preprocessor line:  %import x\<newline>'')"
proof -
  have r: "readlines '' %import x\<newline>'' = ['' %import x\<newline>'']"
    by (simp add: readlines_def is_linebreak_def)
  have k: "builtin_key '' %import x\<newline>'' = ''%import''"
    by (simp add: builtin_key_def lstrip_def is_space_def split1_def)
  have p: "import_path ''/specs/a.spec'' ''%import x'' = ''/specs/%import x''"
    by (simp add: import_path_def startswith_def path_join_def dirname_def)
  have i: "import_expander f indented_env ''/specs/a.spec'' '' %import x\<newline>''
      = Inl (PreprocessorError ''invalid preprocessor line:  %import x\<newline>'')" for f
    by (simp add: import_expander_def split1_def strip_def lstrip_def rstrip_def is_space_def p)
      (simp add: indented_env_def)
  have e: "builtin_recursive_expand 10 indented_env ''/specs/a.spec'' '' %import x\<newline>''
      = Inl (PreprocessorError ''invalid preprocessor line:  %import x\<newline>'')"
    unfolding eval_nat_numeral builtin_recursive_expand.simps by (simp add: k i reraise_def)
  have f: "files indented_env ''/specs/a.spec'' = Some '' %import x\<newline>''"
    by (simp add: indented_env_def)
  have s: "\<not> startswith '' %import x\<newline>'' ''%''" by (simp add: startswith_def)
  have "SpecPreprocessor_parse 10 indented_env (\<lambda>s. None) ''/specs/a.spec''
       = Inl (PreprocessorError ''invalid preprocessor line:  %import x\<newline>'')"
    by (simp add: SpecPreprocessor_parse_def f r e)
  with f r s show ?thesis by blast
qed

text \<open>
  C9, amended. For every spec file in whose text no line, as \<^verbatim>\<open>readlines\<close> splits it,
  has \<^verbatim>\<open>%\<close> as its first character after leading white space, the preprocessor's
  \<^verbatim>\<open>parse\<close> returns the text unchanged, as the list of its newline-separated lines,
  whatever expanders are registered and whatever depth the interpreter allows.
\<close>

theorem parse_identity_on_directive_free_text:
  assumes "files E spec_path = Some data"
    and "list_all directive_free (readlines data)"
  shows "SpecPreprocessor_parse depth E expanders spec_path = Inr (split_all CHR 0x0A data)
       \<and> join_sep [CHR 0x0A] (split_all CHR 0x0A data) = data"
proof -
  have "list_all (\<lambda>x. builtin_recursive_expand depth E spec_path x = Inr x) (readlines data)"
    using assms(2) by (auto simp: list_all_iff expand_directive_free)
  then have 1: "map_exn (builtin_recursive_expand depth E spec_path) (readlines data)
      = Inr (readlines data)"
    by (rule map_exn_identity)
  have "list_all (\<lambda>x. user_expand expanders x = Inr x) (readlines data)"
    using assms(2) by (auto simp: list_all_iff user_expand_directive_free)
  then have 2: "map_exn (user_expand expanders) (readlines data) = Inr (readlines data)"
    by (rule map_exn_identity)
  show ?thesis
    using assms(1) by (simp add: SpecPreprocessor_parse_def 1 2 concat_readlines join_split_all)
qed

theorem parse_identity_on_directive_free_text_witness:
  "files example_env ''/specs/bad.spec'' = Some ''execution_strategy: demo\<newline>release_version: 5\<newline>''
   \<and> list_all directive_free (readlines ''execution_strategy: demo\<newline>release_version: 5\<newline>'')
   \<and> SpecPreprocessor_parse 0 example_env (\<lambda>s. None) ''/specs/bad.spec''
       = Inr [''execution_strategy: demo'', ''release_version: 5'', '''']"
proof -
  have f: "files example_env ''/specs/bad.spec''
      = Some ''execution_strategy: demo\<newline>release_version: 5\<newline>''"
    by (simp add: example_env_def)
  have d: "list_all directive_free (readlines ''execution_strategy: demo\<newline>release_version: 5\<newline>'')"
    by (simp add: readlines_def is_linebreak_def directive_free_def lstrip_def is_space_def)
  have s: "split_all CHR 0x0A ''execution_strategy: demo\<newline>release_version: 5\<newline>''
      = [''execution_strategy: demo'', ''release_version: 5'', '''']"
    by simp
  show ?thesis
    using parse_identity_on_directive_free_text [OF f d, of 0 "\<lambda>s. None"] f d s by simp
qed

subsection \<open>Imports\<close>








text \<open>
  An expansion that returns within some depth returns the same within any larger one.
\<close>

lemma map_exn_mono:
  "(\<And>x y. f x = Inr y \<Longrightarrow> g x = Inr y) \<Longrightarrow> map_exn f xs = Inr ys \<Longrightarrow> map_exn g xs = Inr ys"
  by (induction xs arbitrary: ys) (auto split: sum.splits)

lemma import_expander_mono:
  assumes "\<And>x y. f x = Inr y \<Longrightarrow> g x = Inr y"
    and "import_expander f E spec_path line = Inr out"
  shows "import_expander g E spec_path line = Inr out"
  using assms(2) map_exn_mono [of f g, OF assms(1)]
  by (auto simp: import_expander_def Let_def split: option.splits sum.splits if_splits)

lemma env_expander_mono:
  assumes "\<And>x y. f x = Inr y \<Longrightarrow> g x = Inr y"
    and "env_expander f E line = Inr out"
  shows "env_expander g E line = Inr out"
  using assms
  by (auto simp: env_expander_def Let_def split: option.splits sum.splits if_splits)

lemma reraise_Inr: "reraise r = Inr y \<longleftrightarrow> r = Inr y"
  by (auto simp: reraise_def split: sum.splits exn.splits)

lemma expand_Suc_import:
  "builtin_key line = ''%import'' \<Longrightarrow>
   builtin_recursive_expand (Suc depth) E spec_path line =
     reraise (import_expander (builtin_recursive_expand depth E spec_path) E spec_path line)"
  by simp

lemma expand_Suc_env:
  "builtin_key line \<noteq> ''%import'' \<Longrightarrow> builtin_key line = ''%env'' \<Longrightarrow>
   builtin_recursive_expand (Suc depth) E spec_path line =
     reraise (env_expander (builtin_recursive_expand depth E spec_path) E line)"
  by simp

lemma expand_depth_Suc:
  "builtin_recursive_expand depth E spec_path line = Inr out \<Longrightarrow>
   builtin_recursive_expand (Suc depth) E spec_path line = Inr out"
proof (induction depth arbitrary: line out)
  case 0
  then show ?case by (auto split: if_splits)
next
  case (Suc depth)
  show ?case
  proof (cases "builtin_key line = ''%import''")
    case True
    from Suc.prems have "import_expander (builtin_recursive_expand depth E spec_path)
        E spec_path line = Inr out"
      unfolding expand_Suc_import [OF True] reraise_Inr .
    then have "import_expander (builtin_recursive_expand (Suc depth) E spec_path)
        E spec_path line = Inr out"
      by (rule import_expander_mono [rotated]) (rule Suc.IH)
    then show ?thesis
      unfolding expand_Suc_import [OF True] reraise_Inr .
  next
    case False
    show ?thesis
    proof (cases "builtin_key line = ''%env''")
      case True
      from Suc.prems have "env_expander (builtin_recursive_expand depth E spec_path)
          E line = Inr out"
        unfolding expand_Suc_env [OF False True] reraise_Inr .
      then have "env_expander (builtin_recursive_expand (Suc depth) E spec_path)
          E line = Inr out"
        by (rule env_expander_mono [rotated]) (rule Suc.IH)
      then show ?thesis
        unfolding expand_Suc_env [OF False True] reraise_Inr .
    next
      case no_env: False
      with False Suc.prems show ?thesis by simp
    qed
  qed
qed

lemma expand_depth_mono:
  "builtin_recursive_expand depth E spec_path line = Inr out \<Longrightarrow>
   builtin_recursive_expand (depth + k) E spec_path line = Inr out"
  by (induction k) (simp_all add: expand_depth_Suc del: builtin_recursive_expand.simps)








end
